theory Spec2Isabelle
  imports Main
begin

section \<open>Stale package versions\<close>

text \<open>
  \<^verbatim>\<open>main.go\<close> of \<^verbatim>\<open>get-stale-packages-action\<close> walks the packages of a GitHub repository, one
  package for each query, and the versions of each package, a page for each query. It
  collects the identifiers of the versions whose tag is not protected and whose latest file
  is older than a week, and publishes them as \<^verbatim>\<open>STALE_VERSIONS\<close>.

  The theory embeds the program as functions: the pattern \<^verbatim>\<open>semverRegExp\<close> as a regular
  expression with its matcher, \<^verbatim>\<open>matchVersion\<close>, the two nested loops of \<^verbatim>\<open>main\<close> and
  \<^verbatim>\<open>main\<close> itself. What the program reads from outside (the environment, the answers of the
  API, the clock) is a parameter; what it does to the outside (the log, the queries sent,
  the value published, the way it ends) is its result. The loops may run for ever, when
  the API goes on announcing next pages, so they carry a bound on their iterations.

  Left out as of no effect on what is stated here: \<^verbatim>\<open>flag.Parse\<close> (the program declares no
  flag and is run without arguments), the prefix of the log, and the \<^verbatim>\<open>Accept\<close> header that
  \<^verbatim>\<open>PackagePreview.RoundTrip\<close> adds to each request.
\<close>

section \<open>Regular expressions as used by \<^verbatim>\<open>regexp.MustCompile(semverRegExp)\<close>\<close>

text \<open>
  The pattern of \<^verbatim>\<open>main.go\<close> uses literals, character classes given by ranges, grouping,
  alternation, \<^verbatim>\<open>*\<close>, \<^verbatim>\<open>+\<close> and \<^verbatim>\<open>?\<close>, and is anchored by \<^verbatim>\<open>^\<close> and \<^verbatim>\<open>$\<close>. Go's
  \<^verbatim>\<open>regexp\<close> package has no flags set here, so \<^verbatim>\<open>$\<close> is the end of the text and \<^verbatim>\<open>\d\<close> is the
  ASCII class \<^verbatim>\<open>[0-9]\<close>; named groups only group. A value of \<open>regexp\<close> stands for the pattern
  between the two anchors, and \<open>MatchString\<close> asks whether the whole string belongs to it.
  Go strings are byte sequences; every class of the pattern is ASCII, so matching bytes and
  matching code points agree.
\<close>

type_synonym char_range = "char \<times> char"

datatype regexp =
    Eps
  | Class "char_range list"
  | Cat regexp regexp
  | Alt regexp regexp
  | Star regexp

definition in_range :: "char \<Rightarrow> char_range \<Rightarrow> bool" where
  "in_range c r = ((of_char (fst r) :: nat) \<le> of_char c \<and> (of_char c :: nat) \<le> of_char (snd r))"

definition in_class :: "char \<Rightarrow> char_range list \<Rightarrow> bool" where
  "in_class c rs = list_ex (in_range c) rs"

definition Lit :: "char \<Rightarrow> regexp" where
  "Lit c = Class [(c, c)]"

definition Opt :: "regexp \<Rightarrow> regexp" where
  "Opt r = Alt r Eps"

definition Plus :: "regexp \<Rightarrow> regexp" where
  "Plus r = Cat r (Star r)"

text \<open>The strings a pattern denotes.\<close>

definition conc :: "string set \<Rightarrow> string set \<Rightarrow> string set" where
  "conc A B = {xs @ ys | xs ys. xs \<in> A \<and> ys \<in> B}"

inductive_set star :: "string set \<Rightarrow> string set" for A :: "string set" where
  star_nil: "[] \<in> star A"
| star_app: "x \<in> A \<Longrightarrow> ys \<in> star A \<Longrightarrow> x @ ys \<in> star A"

fun lang :: "regexp \<Rightarrow> string set" where
  "lang Eps = {[]}"
| "lang (Class rs) = {[c] | c. in_class c rs}"
| "lang (Cat r s) = conc (lang r) (lang s)"
| "lang (Alt r s) = lang r \<union> lang s"
| "lang (Star r) = star (lang r)"

text \<open>An executable matcher: the pattern is consumed one character at a time.\<close>

fun nullable :: "regexp \<Rightarrow> bool" where
  "nullable Eps = True"
| "nullable (Class rs) = False"
| "nullable (Cat r s) = (nullable r \<and> nullable s)"
| "nullable (Alt r s) = (nullable r \<or> nullable s)"
| "nullable (Star r) = True"

fun deriv :: "char \<Rightarrow> regexp \<Rightarrow> regexp" where
  "deriv c Eps = Class []"
| "deriv c (Class rs) = (if in_class c rs then Eps else Class [])"
| "deriv c (Cat r s) =
     (if nullable r then Alt (Cat (deriv c r) s) (deriv c s) else Cat (deriv c r) s)"
| "deriv c (Alt r s) = Alt (deriv c r) (deriv c s)"
| "deriv c (Star r) = Cat (deriv c r) (Star r)"

fun matches :: "regexp \<Rightarrow> string \<Rightarrow> bool" where
  "matches r [] = nullable r"
| "matches r (c # cs) = matches (deriv c r) cs"

definition MatchString :: "regexp \<Rightarrow> string \<Rightarrow> bool" where
  "MatchString r s = matches r s"

subsection \<open>The pattern \<^verbatim>\<open>semverRegExp\<close>\<close>

text \<open>
  \<^verbatim>\<open>^(?P<major>0|[1-9]\d*)\.(?P<minor>0|[1-9]\d*)\.(?P<patch>0|[1-9]\d*)\<close>
  \<^verbatim>\<open>(?:-(?P<prerelease>(?:0|[1-9]\d*|\d*[a-zA-Z-][0-9a-zA-Z-]*)\<close>
  \<^verbatim>\<open>(?:\.(?:0|[1-9]\d*|\d*[a-zA-Z-][0-9a-zA-Z-]*))*))?\<close>
  \<^verbatim>\<open>(?:\+(?P<buildmetadata>[0-9a-zA-Z-]+(?:\.[0-9a-zA-Z-]+)*))?$\<close>

  The repeated pieces are named once: \<open>rxDigit\<close> is \<^verbatim>\<open>\d\<close>, \<open>rxNumId\<close> is \<^verbatim>\<open>0|[1-9]\d*\<close>,
  \<open>rxNonDigit\<close> is \<^verbatim>\<open>[a-zA-Z-]\<close>, \<open>rxIdChar\<close> is \<^verbatim>\<open>[0-9a-zA-Z-]\<close> and \<open>rxPreId\<close> is
  \<^verbatim>\<open>0|[1-9]\d*|\d*[a-zA-Z-][0-9a-zA-Z-]*\<close>.
\<close>

definition rxDigit :: regexp where
  "rxDigit = Class [(CHR ''0'', CHR ''9'')]"

definition rxNumId :: regexp where
  "rxNumId = Alt (Lit CHR ''0'') (Cat (Class [(CHR ''1'', CHR ''9'')]) (Star rxDigit))"

definition rxNonDigit :: regexp where
  "rxNonDigit = Class [(CHR ''a'', CHR ''z''), (CHR ''A'', CHR ''Z''), (CHR ''-'', CHR ''-'')]"

definition rxIdChar :: regexp where
  "rxIdChar = Class [(CHR ''0'', CHR ''9''), (CHR ''a'', CHR ''z''), (CHR ''A'', CHR ''Z''),
     (CHR ''-'', CHR ''-'')]"

definition rxPreId :: regexp where
  "rxPreId = Alt (Lit CHR ''0'') (Alt (Cat (Class [(CHR ''1'', CHR ''9'')]) (Star rxDigit))
     (Cat (Star rxDigit) (Cat rxNonDigit (Star rxIdChar))))"

definition semverRegExp :: regexp where
  "semverRegExp =
     Cat rxNumId (Cat (Lit CHR ''.'') (Cat rxNumId (Cat (Lit CHR ''.'') (Cat rxNumId
       (Cat (Opt (Cat (Lit CHR ''-'') (Cat rxPreId (Star (Cat (Lit CHR ''.'') rxPreId)))))
            (Opt (Cat (Lit CHR ''+'')
               (Cat (Plus rxIdChar) (Star (Cat (Lit CHR ''.'') (Plus rxIdChar)))))))))))"

definition reg :: regexp where
  "reg = semverRegExp"

text \<open>
  \<^verbatim>\<open>matchVersion\<close> returns true when the version is none of: a semantic version, the tag
  \<^verbatim>\<open>docker-base-layer\<close>, the tag \<^verbatim>\<open>latest\<close>.
\<close>

definition matchVersion :: "string \<Rightarrow> bool" where
  "matchVersion version =
     (if MatchString reg version then False
      else if version = ''docker-base-layer'' then False
      else if version = ''latest'' then False
      else True)"

text \<open>The three pieces of the pattern that the grammar of a semantic version names.\<close>

definition rxCore :: regexp where
  "rxCore = Cat rxNumId (Cat (Lit CHR ''.'') (Cat rxNumId (Cat (Lit CHR ''.'') rxNumId)))"

definition rxPreSuffix :: regexp where
  "rxPreSuffix = Opt (Cat (Lit CHR ''-'') (Cat rxPreId (Star (Cat (Lit CHR ''.'') rxPreId))))"

definition rxBuildSuffix :: regexp where
  "rxBuildSuffix =
     Opt (Cat (Lit CHR ''+'') (Cat (Plus rxIdChar) (Star (Cat (Lit CHR ''.'') (Plus rxIdChar)))))"

section \<open>The grammar of semantic versions, as the specification refers to it\<close>

text \<open>
  The specification protects a tag that "matches the semantic-version grammar
  (MAJOR.MINOR.PATCH with optional pre-release and build-metadata suffixes, per the standard
  semantic-versioning specification)". The predicates below follow the Backus-Naur form of
  Semantic Versioning 2.0.0, one predicate per nonterminal and one rule per production; they
  are written from the specification and not from the pattern above.
\<close>

definition digit :: "char \<Rightarrow> bool" where
  "digit c = (c \<in> set ''0123456789'')"

definition positive_digit :: "char \<Rightarrow> bool" where
  "positive_digit c = (c \<in> set ''123456789'')"

definition letter :: "char \<Rightarrow> bool" where
  "letter c = (c \<in> set ''ABCDEFGHIJKLMNOPQRSTUVWXYZabcdefghijklmnopqrstuvwxyz'')"

definition non_digit :: "char \<Rightarrow> bool" where
  "non_digit c = (letter c \<or> c = CHR ''-'')"

definition identifier_character :: "char \<Rightarrow> bool" where
  "identifier_character c = (digit c \<or> non_digit c)"

inductive digits :: "string \<Rightarrow> bool" where
  digits_one: "digit c \<Longrightarrow> digits [c]"
| digits_more: "digit c \<Longrightarrow> digits s \<Longrightarrow> digits (c # s)"

inductive identifier_characters :: "string \<Rightarrow> bool" where
  idchars_one: "identifier_character c \<Longrightarrow> identifier_characters [c]"
| idchars_more: "identifier_character c \<Longrightarrow> identifier_characters s \<Longrightarrow>
     identifier_characters (c # s)"

inductive numeric_identifier :: "string \<Rightarrow> bool" where
  numeric_zero: "numeric_identifier ''0''"
| numeric_one: "positive_digit c \<Longrightarrow> numeric_identifier [c]"
| numeric_more: "positive_digit c \<Longrightarrow> digits s \<Longrightarrow> numeric_identifier (c # s)"

inductive alphanumeric_identifier :: "string \<Rightarrow> bool" where
  alnum_single: "non_digit c \<Longrightarrow> alphanumeric_identifier [c]"
| alnum_first: "non_digit c \<Longrightarrow> identifier_characters s \<Longrightarrow> alphanumeric_identifier (c # s)"
| alnum_last: "identifier_characters s \<Longrightarrow> non_digit c \<Longrightarrow> alphanumeric_identifier (s @ [c])"
| alnum_middle: "identifier_characters s \<Longrightarrow> non_digit c \<Longrightarrow> identifier_characters t \<Longrightarrow>
     alphanumeric_identifier (s @ c # t)"

definition pre_release_identifier :: "string \<Rightarrow> bool" where
  "pre_release_identifier s = (alphanumeric_identifier s \<or> numeric_identifier s)"

definition build_identifier :: "string \<Rightarrow> bool" where
  "build_identifier s = (alphanumeric_identifier s \<or> digits s)"

inductive dot_separated :: "(string \<Rightarrow> bool) \<Rightarrow> string \<Rightarrow> bool" for P :: "string \<Rightarrow> bool" where
  dot_single: "P s \<Longrightarrow> dot_separated P s"
| dot_more: "P s \<Longrightarrow> dot_separated P t \<Longrightarrow> dot_separated P (s @ ''.'' @ t)"

definition pre_release :: "string \<Rightarrow> bool" where
  "pre_release = dot_separated pre_release_identifier"

definition build :: "string \<Rightarrow> bool" where
  "build = dot_separated build_identifier"

definition version_core :: "string \<Rightarrow> bool" where
  "version_core s = (\<exists>major minor patch. numeric_identifier major \<and> numeric_identifier minor \<and>
      numeric_identifier patch \<and> s = major @ ''.'' @ minor @ ''.'' @ patch)"

inductive valid_semver :: "string \<Rightarrow> bool" where
  semver_core: "version_core s \<Longrightarrow> valid_semver s"
| semver_pre: "version_core s \<Longrightarrow> pre_release p \<Longrightarrow> valid_semver (s @ ''-'' @ p)"
| semver_build: "version_core s \<Longrightarrow> build b \<Longrightarrow> valid_semver (s @ ''+'' @ b)"
| semver_pre_build: "version_core s \<Longrightarrow> pre_release p \<Longrightarrow> build b \<Longrightarrow>
     valid_semver (s @ ''-'' @ p @ ''+'' @ b)"

text \<open>The protective tags of the specification.\<close>

definition isProtectedTag :: "string \<Rightarrow> bool" where
  "isProtectedTag tag = (valid_semver tag \<or> tag = ''latest'' \<or> tag = ''docker-base-layer'')"

section \<open>The data of \<^verbatim>\<open>main.go\<close>\<close>

text \<open>
  A \<^verbatim>\<open>time.Time\<close> is an instant; it is modelled by its number of nanoseconds since the Unix
  epoch, and a \<^verbatim>\<open>time.Duration\<close> by its number of nanoseconds. The instants the program
  handles (timestamps of an RFC 3339 response, the current time) and the one duration it
  uses are far from the limits of their 64-bit representations.
\<close>

type_synonym time = int

definition Second :: int where
  "Second = 1000000000"

definition Hour :: int where
  "Hour = 3600 * Second"

definition packageTTL :: int where
  "packageTTL = 7 * 24 * Hour"

text \<open>
  \<^verbatim>\<open>githubv4.ID\<close> is \<^verbatim>\<open>interface{}\<close>: the decoder stores a string for a JSON string and some
  other value otherwise; \<^verbatim>\<open>node.ID.(string)\<close> panics on the latter.
\<close>

datatype ID = StringID string | OtherID

record PageInfo =
  EndCursor :: string
  HasNextPage :: bool

text \<open>
  The anonymous structs of \<^verbatim>\<open>query\<close>, from the inside out. Their fields \<^verbatim>\<open>Nodes\<close>, \<^verbatim>\<open>ID\<close> and
  \<^verbatim>\<open>PageInfo\<close> occur at several levels and carry the level in their names here; \<open>Files\<close> is
  \<^verbatim>\<open>Files.Nodes\<close>.
\<close>

record FileNode =
  UpdatedAt :: time

record VersionNode =
  version_ID :: ID
  Version :: string
  Files :: "FileNode list"

record VersionsConn =
  version_Nodes :: "VersionNode list"
  version_PageInfo :: PageInfo

record PackageNode =
  package_ID :: ID
  Name :: string
  Versions :: VersionsConn

record PackagesConn =
  package_Nodes :: "PackageNode list"
  package_PageInfo :: PageInfo

text \<open>The map \<^verbatim>\<open>variables\<close>; a \<^verbatim>\<open>nil\<close> cursor is \<open>None\<close>.\<close>

record variables =
  repositoryOwner :: string
  repositoryName :: string
  packagesCursor :: "string option"
  versionsCursor :: "string option"

text \<open>
  What the program reads from outside: the process environment, the API behind
  \<^verbatim>\<open>client.Query\<close> and the clock behind \<^verbatim>\<open>time.Now\<close>. The API answers the \<open>n\<close>-th call
  (counted from 0) of the client made for a token with an error, given by its message, or
  with the decoded \<^verbatim>\<open>query.Repository.Packages\<close>; the clock answers the \<open>n\<close>-th reading.
\<close>

type_synonym client = "nat \<Rightarrow> variables \<Rightarrow> string + PackagesConn"

record world =
  Getenv :: "string \<Rightarrow> string"
  github :: "string \<Rightarrow> client"
  Now :: "nat \<Rightarrow> time"

definition getClient :: "world \<Rightarrow> string \<Rightarrow> client" where
  "getClient w token = github w token"

text \<open>The lines written by \<^verbatim>\<open>log.Printf\<close>, by their format and arguments.\<close>

datatype log_event =
    LogInspecting ID string
  | LogNoFiles ID string
  | LogStale ID string time
  | LogSkip ID string time
  | LogSetting string

text \<open>
  The state of the loops: the map \<^verbatim>\<open>variables\<close>, the slice \<^verbatim>\<open>versions\<close>, the lines logged,
  the variables of every query sent so far and the number of clock readings so far.
\<close>

record state =
  vars :: variables
  versions :: "string list"
  log :: "log_event list"
  requests :: "variables list"
  ticks :: nat

text \<open>
  How a run ends: \<^verbatim>\<open>main\<close> returns; \<^verbatim>\<open>githubactions.Fatalf\<close> prints the message as an error
  and exits with status 1; a run-time panic; or the bound on the iterations of a loop of
  the model is reached, the Go program still running.
\<close>

datatype outcome = Returned | Fatal string | Panicked string | OutOfFuel

text \<open>What a run leaves behind: the log, the queries sent and the calls of
  \<^verbatim>\<open>githubactions.SetEnv\<close>.\<close>

record effects =
  logged :: "log_event list"
  queried :: "variables list"
  published :: "(string \<times> string) list"

section \<open>The program\<close>

text \<open>\<^verbatim>\<open>strings.Split(s, sep)\<close> for a separator of one byte.\<close>

fun Split_acc :: "char \<Rightarrow> string \<Rightarrow> string \<Rightarrow> string list" where
  "Split_acc sep cur [] = [rev cur]"
| "Split_acc sep cur (c # cs) =
     (if c = sep then rev cur # Split_acc sep [] cs else Split_acc sep (c # cur) cs)"

definition Split :: "string \<Rightarrow> char \<Rightarrow> string list" where
  "Split s sep = Split_acc sep [] s"

text \<open>\<^verbatim>\<open>strings.Join(elems, sep)\<close>.\<close>

fun Join :: "string list \<Rightarrow> string \<Rightarrow> string" where
  "Join [] sep = []"
| "Join [x] sep = x"
| "Join (x # y # ys) sep = x @ sep @ Join (y # ys) sep"

text \<open>
  The body of the loop over \<^verbatim>\<open>pkg.Versions.Nodes\<close> (lines 103 to 122) for one node. The
  clock is read only when \<^verbatim>\<open>matchVersion\<close> holds; the type assertion on the identifier comes
  before the line is logged.
\<close>

definition inspectVersion :: "(nat \<Rightarrow> time) \<Rightarrow> VersionNode \<Rightarrow> state \<Rightarrow> (outcome \<times> state) + state" where
  "inspectVersion now node st =
     (case Files node of
        [] \<Rightarrow> Inr (st\<lparr>log := log st @ [LogNoFiles (version_ID node) (Version node)]\<rparr>)
      | f # _ \<Rightarrow>
          (let updatedAt = UpdatedAt f in
           if matchVersion (Version node) then
             (let t = now (ticks st); st1 = st\<lparr>ticks := Suc (ticks st)\<rparr> in
              if updatedAt < t - packageTTL then
                (case version_ID node of
                   StringID s \<Rightarrow>
                     Inr (st1\<lparr>versions := versions st1 @ [s],
                       log := log st1 @ [LogStale (version_ID node) (Version node) updatedAt]\<rparr>)
                 | OtherID \<Rightarrow> Inl (Panicked ''interface conversion: interface {} is not string'', st1))
              else Inr (st1\<lparr>log := log st1 @ [LogSkip (version_ID node) (Version node) updatedAt]\<rparr>))
           else Inr (st\<lparr>log := log st @ [LogSkip (version_ID node) (Version node) updatedAt]\<rparr>)))"

text \<open>The loop over the version nodes of one page.\<close>

fun rangeVersions :: "(nat \<Rightarrow> time) \<Rightarrow> VersionNode list \<Rightarrow> state \<Rightarrow> (outcome \<times> state) + state" where
  "rangeVersions now [] st = Inr st"
| "rangeVersions now (node # nodes) st =
     (case inspectVersion now node st of
        Inl stop \<Rightarrow> Inl stop
      | Inr st' \<Rightarrow> rangeVersions now nodes st')"

text \<open>The message of line 91, \<^verbatim>\<open>"failed to query packages: %s"\<close> with the error.\<close>

definition query_failure :: "string \<Rightarrow> string" where
  "query_failure err = ''failed to query packages: '' @ err"

text \<open>
  The inner loop (lines 88 to 129), one query per iteration, for at most \<open>k\<close> iterations. It
  ends by a \<^verbatim>\<open>break\<close> with the last answer in \<^verbatim>\<open>query\<close>, or the run ends inside it.
\<close>

fun versionsPages :: "nat \<Rightarrow> client \<Rightarrow> (nat \<Rightarrow> time) \<Rightarrow> state \<Rightarrow> (outcome \<times> state) + (PackagesConn \<times> state)" where
  "versionsPages 0 cl now st = Inl (OutOfFuel, st)"
| "versionsPages (Suc k) cl now st =
     (let st1 = st\<lparr>requests := requests st @ [vars st]\<rparr> in
      case cl (length (requests st)) (vars st) of
        Inl err \<Rightarrow> Inl (Fatal (query_failure err), st1)
      | Inr query \<Rightarrow>
          (case package_Nodes query of
             [] \<Rightarrow> Inr (query, st1)
           | pkg # _ \<Rightarrow>
               (case rangeVersions now (version_Nodes (Versions pkg))
                       (st1\<lparr>log := log st1 @ [LogInspecting (package_ID pkg) (Name pkg)]\<rparr>) of
                  Inl stop \<Rightarrow> Inl stop
                | Inr st2 \<Rightarrow>
                    if \<not> HasNextPage (version_PageInfo (Versions pkg)) then Inr (query, st2)
                    else versionsPages k cl now
                      (st2\<lparr>vars := (vars st2)\<lparr>versionsCursor :=
                         Some (EndCursor (version_PageInfo (Versions pkg)))\<rparr>\<rparr>))))"

text \<open>
  The outer loop (lines 86 to 135), for at most \<open>n\<close> iterations, each running the inner loop
  for at most \<open>k\<close>.
\<close>

fun packagesLoop :: "nat \<Rightarrow> nat \<Rightarrow> client \<Rightarrow> (nat \<Rightarrow> time) \<Rightarrow> state \<Rightarrow> outcome \<times> state" where
  "packagesLoop k 0 cl now st = (OutOfFuel, st)"
| "packagesLoop k (Suc n) cl now st =
     (case versionsPages k cl now st of
        Inl stop \<Rightarrow> stop
      | Inr (query, st') \<Rightarrow>
          if \<not> HasNextPage (package_PageInfo query) then (Returned, st')
          else packagesLoop k n cl now
            (st'\<lparr>vars := (vars st')\<lparr>packagesCursor := Some (EndCursor (package_PageInfo query))\<rparr>\<rparr>))"

definition no_effects :: effects where
  "no_effects = \<lparr>logged = [], queried = [], published = []\<rparr>"

text \<open>
  \<^verbatim>\<open>main\<close>, with \<open>fuel\<close> bounding the iterations of either loop. The index expression
  \<^verbatim>\<open>githubRepoSlice[1]\<close> panics when the slice has one element.
\<close>

definition main :: "world \<Rightarrow> nat \<Rightarrow> outcome \<times> effects" where
  "main w fuel =
     (let token = Getenv w ''ROBOT_TOKEN'' in
      if token = [] then (Fatal ''Environment variable ROBOT_TOKEN is empty.'', no_effects)
      else
        let githubRepo = Getenv w ''GITHUB_REPOSITORY'' in
        if githubRepo = [] then
          (Fatal ''Environment variable GITHUB_REPOSITORY is empty.'', no_effects)
        else
          (case Split githubRepo CHR ''/'' of
             owner # name # _ \<Rightarrow>
               (let variables = \<lparr>repositoryOwner = owner, repositoryName = name,
                      packagesCursor = None, versionsCursor = None\<rparr>;
                    client = getClient w token;
                    st0 = \<lparr>vars = variables, versions = [], log = [], requests = [], ticks = 0\<rparr>
                in case packagesLoop fuel fuel client (Now w) st0 of
                     (Returned, st) \<Rightarrow>
                       (let staleVersions = Join (versions st) '', '' in
                        (Returned,
                         \<lparr>logged = log st @ [LogSetting staleVersions], queried = requests st,
                          published = [(''STALE_VERSIONS'', staleVersions)]\<rparr>))
                   | (stop, st) \<Rightarrow>
                       (stop, \<lparr>logged = log st, queried = requests st, published = []\<rparr>))
           | _ \<Rightarrow> (Panicked ''index out of range [1] with length 1'', no_effects)))"

section \<open>A paged server\<close>

text \<open>
  Modelled from the spec: the upstream query API is not part of the repository. Section 6
  describes it as a paginated API with, for each collection, nodes and a page information
  made of an end cursor and a has-more flag; section 8 tests the traversal against
  synthetic collections split into pages. The server below holds a repository's packages,
  each with its versions, and serves one package for each query and at most \<open>psize\<close> versions
  of it, after the positions the two cursors stand for. A cursor is opaque to the program;
  here it is the position written in unary, and \<^verbatim>\<open>nil\<close> is the start.
\<close>

record package_data =
  data_ID :: ID
  data_Name :: string
  data_Versions :: "VersionNode list"

definition cursor_at :: "nat \<Rightarrow> string" where
  "cursor_at n = replicate n CHR ''I''"

definition position :: "string option \<Rightarrow> nat" where
  "position c = (case c of None \<Rightarrow> 0 | Some s \<Rightarrow> length s)"

definition page_info :: "nat \<Rightarrow> nat \<Rightarrow> 'a list \<Rightarrow> PageInfo" where
  "page_info psize pos xs =
     \<lparr>EndCursor = cursor_at (min (pos + psize) (length xs)),
      HasNextPage = (pos + psize < length xs)\<rparr>"

definition page_nodes :: "nat \<Rightarrow> nat \<Rightarrow> 'a list \<Rightarrow> 'a list" where
  "page_nodes psize pos xs = take psize (drop pos xs)"

definition serve_package :: "nat \<Rightarrow> string option \<Rightarrow> package_data \<Rightarrow> PackageNode" where
  "serve_package psize cursor p =
     \<lparr>package_ID = data_ID p, Name = data_Name p,
      Versions = \<lparr>version_Nodes = page_nodes psize (position cursor) (data_Versions p),
                  version_PageInfo = page_info psize (position cursor) (data_Versions p)\<rparr>\<rparr>"

definition paged_server :: "nat \<Rightarrow> package_data list \<Rightarrow> client" where
  "paged_server psize repo n v =
     Inr \<lparr>package_Nodes =
            map (serve_package psize (versionsCursor v))
              (page_nodes 1 (position (packagesCursor v)) repo),
          package_PageInfo = page_info 1 (position (packagesCursor v)) repo\<rparr>"

text \<open>
  A process environment with both variables set, an API and a clock that stands still at
  \<open>t\<close>.
\<close>

definition test_world :: "string \<Rightarrow> client \<Rightarrow> time \<Rightarrow> world" where
  "test_world repository cl t =
     \<lparr>Getenv = (\<lambda>name. if name = ''ROBOT_TOKEN'' then ''token''
                 else if name = ''GITHUB_REPOSITORY'' then repository else []),
      github = (\<lambda>token. cl),
      Now = (\<lambda>n. t)\<rparr>"

definition paged_world :: "nat \<Rightarrow> package_data list \<Rightarrow> time \<Rightarrow> world" where
  "paged_world psize repo t = test_world ''percona/app'' (paged_server psize repo) t"

definition Day :: int where
  "Day = 24 * Hour"

text \<open>A version with a string identifier, a tag and files updated at the given instants.\<close>

definition version_node :: "string \<Rightarrow> string \<Rightarrow> time list \<Rightarrow> VersionNode" where
  "version_node i tag ts =
     \<lparr>version_ID = StringID i, Version = tag, Files = map (\<lambda>t. \<lparr>UpdatedAt = t\<rparr>) ts\<rparr>"

text \<open>
  The repository of the end-to-end scenario of section 8 at the instant \<open>t\<close>: one package with
  three versions, the first with the tag \<open>tag\<close> and a file updated at \<open>u\<close>, the second
  \<open>pr-7\<close> without files, the third \<open>pr-8\<close> with a file updated ten days before \<open>t\<close>.
\<close>

definition scenario :: "string \<Rightarrow> time \<Rightarrow> time \<Rightarrow> package_data list" where
  "scenario tag u t =
     [\<lparr>data_ID = StringID ''P1'', data_Name = ''app'',
       data_Versions = [version_node ''V1'' tag [u], version_node ''V2'' ''pr-7'' [],
         version_node ''V3'' ''pr-8'' [t - 10 * Day]]\<rparr>]"

text \<open>Two packages of two versions each, every file updated at the instant 0.\<close>

definition two_packages :: "package_data list" where
  "two_packages =
     [\<lparr>data_ID = StringID ''PA'', data_Name = ''a'',
       data_Versions = [version_node ''A1'' ''pr-1'' [0], version_node ''A2'' ''pr-2'' [0]]\<rparr>,
      \<lparr>data_ID = StringID ''PB'', data_Name = ''b'',
       data_Versions = [version_node ''B1'' ''pr-3'' [0], version_node ''B2'' ''pr-4'' [0]]\<rparr>]"

text \<open>An API that answers as \<open>cl\<close> does for the first \<open>n\<close> calls and fails from then on.\<close>

definition failing_from :: "nat \<Rightarrow> client \<Rightarrow> client" where
  "failing_from n cl i v = (if i < n then cl i v else Inl ''timeout'')"

text \<open>
  An API whose first answer is a page without packages that announces a next page, and
  whose later answers are pages without packages that announce none.
\<close>

definition empty_pages :: client where
  "empty_pages i v =
     Inr \<lparr>package_Nodes = [],
          package_PageInfo = \<lparr>EndCursor = ''X'', HasNextPage = (i = 0)\<rparr>\<rparr>"

section \<open>Reading a run\<close>

text \<open>
  The identifiers the log reports as stale, in the order of the log. The identifier of a
  line \<open>LogStale\<close> is a string, since the line is written after the type assertion.
\<close>

fun stale_id :: "log_event \<Rightarrow> string list" where
  "stale_id (LogStale (StringID s) tag t) = [s]"
| "stale_id e = []"

definition stale_ids :: "log_event list \<Rightarrow> string list" where
  "stale_ids lg = concat (map stale_id lg)"

text \<open>
  The variables of the query that follows a query answered by \<open>query\<close>, if the loops go on:
  the inner loop goes on when the page of versions has a next page, and otherwise the outer
  loop goes on when the page of packages has one.
\<close>

definition next_request :: "PackagesConn \<Rightarrow> variables \<Rightarrow> variables option" where
  "next_request query v =
     (let outer = (if HasNextPage (package_PageInfo query)
                   then Some (v\<lparr>packagesCursor := Some (EndCursor (package_PageInfo query))\<rparr>)
                   else None)
      in case package_Nodes query of
           [] \<Rightarrow> outer
         | pkg # _ \<Rightarrow>
             if HasNextPage (version_PageInfo (Versions pkg))
             then Some (v\<lparr>versionsCursor := Some (EndCursor (version_PageInfo (Versions pkg)))\<rparr>)
             else outer)"

definition chain :: "client \<Rightarrow> variables list \<Rightarrow> bool" where
  "chain cl rs = (\<forall>i. Suc i < length rs \<longrightarrow>
      (\<exists>query. cl i (rs ! i) = Inr query \<and> next_request query (rs ! i) = Some (rs ! Suc i)))"

definition no_failure :: "client \<Rightarrow> variables list \<Rightarrow> bool" where
  "no_failure cl rs = (\<forall>i < length rs. \<forall>err. cl i (rs ! i) \<noteq> Inl err)"

definition failure_is_final :: "client \<Rightarrow> outcome \<Rightarrow> variables list \<Rightarrow> bool" where
  "failure_is_final cl out rs = (\<forall>i < length rs. \<forall>err. cl i (rs ! i) = Inl err \<longrightarrow>
      out = Fatal (query_failure err) \<and> Suc i = length rs)"

text \<open>The queries of \<open>st'\<close> are those of \<open>st\<close> and then, if any, first the one \<open>st\<close> is about to send.\<close>

definition continues :: "state \<Rightarrow> state \<Rightarrow> bool" where
  "continues st st' = (\<exists>ext. requests st' = requests st @ ext \<and> (ext \<noteq> [] \<longrightarrow> hd ext = vars st))"

section \<open>The matcher decides the language of a pattern\<close>

lemma concI: "xs \<in> A \<Longrightarrow> ys \<in> B \<Longrightarrow> xs @ ys \<in> conc A B"
  by (auto simp: conc_def)

lemma concE: "w \<in> conc A B \<Longrightarrow> (\<And>xs ys. w = xs @ ys \<Longrightarrow> xs \<in> A \<Longrightarrow> ys \<in> B \<Longrightarrow> P) \<Longrightarrow> P"
  by (auto simp: conc_def)

lemma in_conc: "w \<in> conc A B \<longleftrightarrow> (\<exists>xs ys. w = xs @ ys \<and> xs \<in> A \<and> ys \<in> B)"
  by (auto simp: conc_def)

lemma nil_in_conc: "[] \<in> conc A B \<longleftrightarrow> [] \<in> A \<and> [] \<in> B"
  by (auto simp: conc_def)

lemma Cons_in_conc:
  "c # w \<in> conc A B \<longleftrightarrow>
     (\<exists>xs ys. w = xs @ ys \<and> c # xs \<in> A \<and> ys \<in> B) \<or> ([] \<in> A \<and> c # w \<in> B)"
  by (auto simp: conc_def Cons_eq_append_conv)

lemma star_Cons_split:
  assumes "w \<in> star A" "w = c # v"
  shows "\<exists>xs ys. v = xs @ ys \<and> c # xs \<in> A \<and> ys \<in> star A"
  using assms
proof (induction arbitrary: c v rule: star.induct)
  case star_nil
  then show ?case by simp
next
  case (star_app x ys)
  show ?case
  proof (cases x)
    case Nil
    with star_app show ?thesis by simp
  next
    case (Cons a xs)
    with star_app.prems have "a = c" "v = xs @ ys" by simp_all
    with Cons star_app.hyps show ?thesis by blast
  qed
qed

lemma Cons_in_star:
  "c # w \<in> star A \<longleftrightarrow> (\<exists>xs ys. w = xs @ ys \<and> c # xs \<in> A \<and> ys \<in> star A)"
proof
  assume "c # w \<in> star A"
  then show "\<exists>xs ys. w = xs @ ys \<and> c # xs \<in> A \<and> ys \<in> star A"
    using star_Cons_split by blast
next
  assume "\<exists>xs ys. w = xs @ ys \<and> c # xs \<in> A \<and> ys \<in> star A"
  then obtain xs ys where "w = xs @ ys" "c # xs \<in> A" "ys \<in> star A" by blast
  then show "c # w \<in> star A"
    using star_app [of "c # xs" A ys] by simp
qed

lemma nullable_lang: "nullable r \<longleftrightarrow> [] \<in> lang r"
  by (induction r) (auto simp: nil_in_conc intro: star_nil)

lemma deriv_lang: "w \<in> lang (deriv c r) \<longleftrightarrow> c # w \<in> lang r"
proof (induction r arbitrary: w)
  case Eps
  show ?case by (simp add: in_class_def)
next
  case (Class rs)
  show ?case by (simp add: in_class_def)
next
  case (Cat r s)
  have A: "w \<in> conc (lang (deriv c r)) (lang s) \<longleftrightarrow>
      (\<exists>xs ys. w = xs @ ys \<and> c # xs \<in> lang r \<and> ys \<in> lang s)"
    by (simp add: in_conc Cat.IH(1))
  have B: "w \<in> lang (deriv c s) \<longleftrightarrow> c # w \<in> lang s"
    by (rule Cat.IH(2))
  show ?case
    by (simp add: A B Cons_in_conc nullable_lang)
next
  case (Alt r s)
  then show ?case by simp
next
  case (Star r)
  have "w \<in> conc (lang (deriv c r)) (star (lang r)) \<longleftrightarrow>
      (\<exists>xs ys. w = xs @ ys \<and> c # xs \<in> lang r \<and> ys \<in> star (lang r))"
    by (simp add: in_conc Star.IH)
  then show ?case
    by (simp add: Cons_in_star)
qed

lemma matches_lang: "matches r w \<longleftrightarrow> w \<in> lang r"
  by (induction w arbitrary: r) (simp_all add: nullable_lang deriv_lang)

section \<open>The pattern and the grammar denote the same strings\<close>

subsection \<open>Character classes and the nonterminals of the grammar\<close>

lemma in_range_chars:
  "in_range c (lo, hi) \<longleftrightarrow> c \<in> set (map char_of [of_char lo ..< Suc (of_char hi) :: nat])"
proof
  assume "in_range c (lo, hi)"
  then have "(of_char lo :: nat) \<le> of_char c" "(of_char c :: nat) < Suc (of_char hi)"
    by (simp_all add: in_range_def less_Suc_eq_le)
  then have "(of_char c :: nat) \<in> set [of_char lo ..< Suc (of_char hi)]"
    by (simp only: set_upt atLeastLessThan_iff)
  then have "char_of (of_char c :: nat) \<in> set (map char_of [of_char lo ..< Suc (of_char hi) :: nat])"
    unfolding set_map by (rule imageI)
  then show "c \<in> set (map char_of [of_char lo ..< Suc (of_char hi) :: nat])"
    by simp
next
  assume "c \<in> set (map char_of [of_char lo ..< Suc (of_char hi) :: nat])"
  then obtain n :: nat where n: "c = char_of n" "of_char lo \<le> n" "n \<le> of_char hi"
    by auto
  have "(of_char hi :: nat) < 256" by (rule nat_of_char_less_256)
  with n(3) have "n < 256" by (rule le_less_trans)
  then have "(of_char (char_of n) :: nat) = n" by simp
  with n show "in_range c (lo, hi)"
    by (simp add: in_range_def)
qed

lemma chars_upper: "map char_of [of_char CHR ''A'' ..< Suc (of_char CHR ''Z'') :: nat] = ''ABCDEFGHIJKLMNOPQRSTUVWXYZ''"
  by code_simp

lemma chars_lower: "map char_of [of_char CHR ''a'' ..< Suc (of_char CHR ''z'') :: nat] = ''abcdefghijklmnopqrstuvwxyz''"
  by code_simp

lemma chars_digit: "map char_of [of_char CHR ''0'' ..< Suc (of_char CHR ''9'') :: nat] = ''0123456789''"
  by code_simp

lemma chars_positive: "map char_of [of_char CHR ''1'' ..< Suc (of_char CHR ''9'') :: nat] = ''123456789''"
  by code_simp

lemma in_range_digit: "in_range c (CHR ''0'', CHR ''9'') \<longleftrightarrow> digit c"
  by (simp only: in_range_chars chars_digit digit_def)

lemma in_range_positive: "in_range c (CHR ''1'', CHR ''9'') \<longleftrightarrow> positive_digit c"
  by (simp only: in_range_chars chars_positive positive_digit_def)

lemma letter_ranges: "letter c \<longleftrightarrow> in_range c (CHR ''a'', CHR ''z'') \<or> in_range c (CHR ''A'', CHR ''Z'')"
proof -
  have "letter c \<longleftrightarrow> c \<in> set (''ABCDEFGHIJKLMNOPQRSTUVWXYZ'' @ ''abcdefghijklmnopqrstuvwxyz'')"
    by (simp only: letter_def append.simps)
  then show ?thesis
    unfolding in_range_chars chars_upper chars_lower set_append by blast
qed

lemma in_range_single: "in_range c (a, a) \<longleftrightarrow> c = a"
  by (auto simp: in_range_def)

lemma identifier_character_digit: "digit c \<Longrightarrow> identifier_character c"
  by (simp add: identifier_character_def)

lemma identifier_character_non_digit: "non_digit c \<Longrightarrow> identifier_character c"
  by (simp add: identifier_character_def)

lemma identifier_character_cases: "identifier_character c \<Longrightarrow> \<not> non_digit c \<Longrightarrow> digit c"
  by (simp add: identifier_character_def)

lemma digits_iff: "digits s \<longleftrightarrow> s \<noteq> [] \<and> list_all digit s"
proof
  show "digits s \<Longrightarrow> s \<noteq> [] \<and> list_all digit s"
    by (induction rule: digits.induct) simp_all
next
  assume "s \<noteq> [] \<and> list_all digit s"
  then show "digits s"
  proof (induction s)
    case Nil
    then show ?case by simp
  next
    case (Cons c s)
    show ?case
    proof (cases s)
      case Nil
      with Cons.prems show ?thesis by (simp add: digits_one)
    next
      case (Cons a u)
      with Cons.IH Cons.prems have "digit c" "digits s" by simp_all
      then show ?thesis by (rule digits_more)
    qed
  qed
qed

lemma identifier_characters_iff:
  "identifier_characters s \<longleftrightarrow> s \<noteq> [] \<and> list_all identifier_character s"
proof
  show "identifier_characters s \<Longrightarrow> s \<noteq> [] \<and> list_all identifier_character s"
    by (induction rule: identifier_characters.induct) simp_all
next
  assume "s \<noteq> [] \<and> list_all identifier_character s"
  then show "identifier_characters s"
  proof (induction s)
    case Nil
    then show ?case by simp
  next
    case (Cons c s)
    show ?case
    proof (cases s)
      case Nil
      with Cons.prems show ?thesis by (simp add: idchars_one)
    next
      case (Cons a u)
      with Cons.IH Cons.prems have "identifier_character c" "identifier_characters s" by simp_all
      then show ?thesis by (rule idchars_more)
    qed
  qed
qed

lemma numeric_identifier_iff:
  "numeric_identifier s \<longleftrightarrow>
     s = ''0'' \<or> (\<exists>c t. s = c # t \<and> positive_digit c \<and> list_all digit t)"
proof
  show "numeric_identifier s \<Longrightarrow>
     s = ''0'' \<or> (\<exists>c t. s = c # t \<and> positive_digit c \<and> list_all digit t)"
    by (induction rule: numeric_identifier.induct) (simp_all add: digits_iff)
next
  assume "s = ''0'' \<or> (\<exists>c t. s = c # t \<and> positive_digit c \<and> list_all digit t)"
  then show "numeric_identifier s"
  proof
    assume "s = ''0''"
    then show ?thesis by (simp add: numeric_zero)
  next
    assume "\<exists>c t. s = c # t \<and> positive_digit c \<and> list_all digit t"
    then obtain c t where s: "s = c # t" "positive_digit c" "list_all digit t" by blast
    show ?thesis
    proof (cases t)
      case Nil
      with s show ?thesis by (simp add: numeric_one)
    next
      case (Cons a u)
      with s have "digits t" by (simp add: digits_iff)
      with s show ?thesis by (simp add: numeric_more)
    qed
  qed
qed

lemma first_non_digit:
  assumes "list_all identifier_character w" "list_ex non_digit w"
  shows "\<exists>ds c t. w = ds @ c # t \<and> list_all digit ds \<and> non_digit c \<and> list_all identifier_character t"
  using assms
proof (induction w)
  case Nil
  then show ?case by simp
next
  case (Cons a w)
  show ?case
  proof (cases "non_digit a")
    case True
    with Cons.prems have "a # w = [] @ a # w \<and> list_all digit [] \<and> non_digit a \<and> list_all identifier_character w"
      by simp
    then show ?thesis by blast
  next
    case False
    with Cons.prems have "digit a" "list_all identifier_character w" "list_ex non_digit w"
      by (simp_all add: identifier_character_cases)
    with Cons.IH obtain ds c t where
      "w = ds @ c # t" "list_all digit ds" "non_digit c" "list_all identifier_character t"
      by blast
    with \<open>digit a\<close> have "a # w = (a # ds) @ c # t \<and> list_all digit (a # ds) \<and> non_digit c \<and>
        list_all identifier_character t"
      by simp
    then show ?thesis by blast
  qed
qed

lemma alphanumeric_chars:
  "alphanumeric_identifier s \<Longrightarrow> list_all identifier_character s \<and> list_ex non_digit s"
  by (induction rule: alphanumeric_identifier.induct)
     (simp_all add: identifier_characters_iff identifier_character_non_digit)

lemma alphanumeric_of_chars:
  assumes "list_all identifier_character s" "list_ex non_digit s"
  shows "alphanumeric_identifier s"
proof -
  from first_non_digit [OF assms] obtain ds c t where
    s: "s = ds @ c # t" "list_all digit ds" "non_digit c" "list_all identifier_character t"
    by blast
  from s(2) have ds: "list_all identifier_character ds"
    by (induction ds) (simp_all add: identifier_character_digit)
  show ?thesis
  proof (cases ds)
    case Nil
    show ?thesis
    proof (cases t)
      case Nil
      with \<open>ds = []\<close> s show ?thesis by (simp add: alnum_single)
    next
      case (Cons a u)
      with s have "identifier_characters t" by (simp add: identifier_characters_iff)
      with \<open>ds = []\<close> s show ?thesis by (simp add: alnum_first)
    qed
  next
    case (Cons d ds')
    with ds have ids: "identifier_characters ds" by (simp add: identifier_characters_iff)
    show ?thesis
    proof (cases t)
      case Nil
      with ids s show ?thesis by (simp add: alnum_last)
    next
      case (Cons a u)
      with s have "identifier_characters t" by (simp add: identifier_characters_iff)
      with ids s show ?thesis by (simp add: alnum_middle)
    qed
  qed
qed

lemma alphanumeric_identifier_iff:
  "alphanumeric_identifier s \<longleftrightarrow> list_all identifier_character s \<and> list_ex non_digit s"
  using alphanumeric_chars alphanumeric_of_chars by blast

lemma build_identifier_iff:
  "build_identifier s \<longleftrightarrow> s \<noteq> [] \<and> list_all identifier_character s"
proof -
  have 1: "list_all digit s \<Longrightarrow> list_all identifier_character s"
    by (induction s) (simp_all add: identifier_character_digit)
  have 2: "list_all identifier_character s \<Longrightarrow> \<not> list_ex non_digit s \<Longrightarrow> list_all digit s"
    by (induction s) (simp_all add: identifier_character_cases)
  have 3: "list_ex non_digit s \<Longrightarrow> s \<noteq> []"
    by auto
  show ?thesis
    unfolding build_identifier_def alphanumeric_identifier_iff digits_iff
    using 1 2 3 by blast
qed

subsection \<open>The pieces of the pattern\<close>

lemma lang_Lit: "lang (Lit c) = {[c]}"
  by (auto simp: Lit_def in_class_def in_range_single)

lemma lang_Opt: "lang (Opt r) = lang r \<union> {[]}"
  by (simp add: Opt_def)

lemma conc_char: "w \<in> conc {[c] | c. P c} B \<longleftrightarrow> (\<exists>c t. w = c # t \<and> P c \<and> t \<in> B)"
proof
  assume "w \<in> conc {[c] | c. P c} B"
  then show "\<exists>c t. w = c # t \<and> P c \<and> t \<in> B"
    by (auto simp: conc_def)
next
  assume "\<exists>c t. w = c # t \<and> P c \<and> t \<in> B"
  then obtain c t where *: "w = c # t" "P c" "t \<in> B" by blast
  from *(2) have "[c] \<in> {[c] | c. P c}" by simp
  from this *(3) have "[c] @ t \<in> conc {[c] | c. P c} B" by (rule concI)
  with *(1) show "w \<in> conc {[c] | c. P c} B" by simp
qed

lemma star_chars_sub: "w \<in> star {[c] | c. P c} \<Longrightarrow> list_all P w"
  by (induction rule: star.induct) auto

lemma star_chars_sup: "list_all P w \<Longrightarrow> w \<in> star {[c] | c. P c}"
proof (induction w)
  case Nil
  show ?case by (rule star_nil)
next
  case (Cons a w)
  then have "[a] \<in> {[c] | c. P c}" "w \<in> star {[c] | c. P c}" by simp_all
  then have "[a] @ w \<in> star {[c] | c. P c}" by (rule star_app)
  then show ?case by simp
qed

lemma star_chars: "w \<in> star {[c] | c. P c} \<longleftrightarrow> list_all P w"
  using star_chars_sub star_chars_sup by blast

lemma in_class_digit: "in_class c [(CHR ''0'', CHR ''9'')] \<longleftrightarrow> digit c"
  by (simp add: in_class_def in_range_digit)

lemma in_class_positive: "in_class c [(CHR ''1'', CHR ''9'')] \<longleftrightarrow> positive_digit c"
  by (simp add: in_class_def in_range_positive)

lemma in_class_non_digit:
  "in_class c [(CHR ''a'', CHR ''z''), (CHR ''A'', CHR ''Z''), (CHR ''-'', CHR ''-'')] \<longleftrightarrow> non_digit c"
  by (simp add: in_class_def non_digit_def letter_ranges in_range_single del: set_simps)

lemma in_class_identifier_character:
  "in_class c [(CHR ''0'', CHR ''9''), (CHR ''a'', CHR ''z''), (CHR ''A'', CHR ''Z''), (CHR ''-'', CHR ''-'')]
     \<longleftrightarrow> identifier_character c"
  by (simp add: in_class_def identifier_character_def non_digit_def letter_ranges in_range_single
      in_range_digit del: set_simps)

lemma lang_star_rxDigit: "w \<in> star (lang rxDigit) \<longleftrightarrow> list_all digit w"
  by (simp add: rxDigit_def in_class_digit star_chars)

lemma lang_star_rxIdChar: "w \<in> star (lang rxIdChar) \<longleftrightarrow> list_all identifier_character w"
  by (simp add: rxIdChar_def in_class_identifier_character star_chars)

lemma lang_positive_number:
  "w \<in> lang (Cat (Class [(CHR ''1'', CHR ''9'')]) (Star rxDigit)) \<longleftrightarrow>
     (\<exists>c t. w = c # t \<and> positive_digit c \<and> list_all digit t)"
  by (simp add: conc_char in_class_positive lang_star_rxDigit)

lemma lang_rxNumId: "w \<in> lang rxNumId \<longleftrightarrow> numeric_identifier w"
proof -
  have "w \<in> lang rxNumId \<longleftrightarrow>
      w = ''0'' \<or> w \<in> lang (Cat (Class [(CHR ''1'', CHR ''9'')]) (Star rxDigit))"
    by (simp add: rxNumId_def lang_Lit)
  then show ?thesis
    by (simp only: lang_positive_number numeric_identifier_iff)
qed

lemma lang_alnum:
  "w \<in> lang (Cat (Star rxDigit) (Cat rxNonDigit (Star rxIdChar))) \<longleftrightarrow> alphanumeric_identifier w"
proof -
  have nd: "lang rxNonDigit = {[c] | c. non_digit c}"
    by (simp add: rxNonDigit_def in_class_non_digit)
  have "w \<in> lang (Cat (Star rxDigit) (Cat rxNonDigit (Star rxIdChar))) \<longleftrightarrow>
      (\<exists>ds r. w = ds @ r \<and> ds \<in> star (lang rxDigit) \<and>
         r \<in> conc (lang rxNonDigit) (star (lang rxIdChar)))"
    by (simp add: in_conc [of w])
  also have "\<dots> \<longleftrightarrow> (\<exists>ds r. w = ds @ r \<and> list_all digit ds \<and>
        (\<exists>c t. r = c # t \<and> non_digit c \<and> list_all identifier_character t))"
    by (simp add: nd conc_char lang_star_rxIdChar lang_star_rxDigit)
  also have "\<dots> \<longleftrightarrow> (\<exists>ds c t. w = ds @ c # t \<and> list_all digit ds \<and> non_digit c \<and>
      list_all identifier_character t)"
    by blast
  also have "\<dots> \<longleftrightarrow> alphanumeric_identifier w"
  proof
    assume "\<exists>ds c t. w = ds @ c # t \<and> list_all digit ds \<and> non_digit c \<and>
      list_all identifier_character t"
    then obtain ds c t where w: "w = ds @ c # t" "list_all digit ds" "non_digit c"
      "list_all identifier_character t" by blast
    from w(2) have "list_all identifier_character ds"
      by (induction ds) (simp_all add: identifier_character_digit)
    with w show "alphanumeric_identifier w"
      by (simp add: alphanumeric_identifier_iff identifier_character_non_digit)
  next
    assume "alphanumeric_identifier w"
    then show "\<exists>ds c t. w = ds @ c # t \<and> list_all digit ds \<and> non_digit c \<and>
      list_all identifier_character t"
      using first_non_digit by (simp add: alphanumeric_identifier_iff)
  qed
  finally show ?thesis .
qed

lemma lang_rxPreId: "w \<in> lang rxPreId \<longleftrightarrow> pre_release_identifier w"
proof -
  have "w \<in> lang rxPreId \<longleftrightarrow> w = ''0'' \<or>
      w \<in> lang (Cat (Class [(CHR ''1'', CHR ''9'')]) (Star rxDigit)) \<or>
      w \<in> lang (Cat (Star rxDigit) (Cat rxNonDigit (Star rxIdChar)))"
    by (simp add: rxPreId_def lang_Lit)
  then show ?thesis
    unfolding lang_alnum lang_positive_number pre_release_identifier_def numeric_identifier_iff
    by blast
qed

lemma lang_plus_rxIdChar: "w \<in> lang (Plus rxIdChar) \<longleftrightarrow> build_identifier w"
proof -
  have ic: "lang rxIdChar = {[c] | c. identifier_character c}"
    by (simp add: rxIdChar_def in_class_identifier_character)
  have "w \<in> lang (Plus rxIdChar) \<longleftrightarrow>
      (\<exists>c t. w = c # t \<and> identifier_character c \<and> list_all identifier_character t)"
    by (simp add: Plus_def ic conc_char star_chars)
  also have "\<dots> \<longleftrightarrow> w \<noteq> [] \<and> list_all identifier_character w"
    by (cases w) auto
  finally show ?thesis by (simp add: build_identifier_iff)
qed

lemma dot_list_sub:
  assumes "ys \<in> star (conc {''.''} A)" "x \<in> A"
  shows "dot_separated (\<lambda>s. s \<in> A) (x @ ys)"
  using assms
proof (induction arbitrary: x rule: star.induct)
  case star_nil
  then show ?case by (simp add: dot_single)
next
  case (star_app y ys)
  from star_app.hyps(1) obtain z where y: "y = ''.'' @ z" "z \<in> A"
    by (auto simp: in_conc)
  from star_app.IH [OF y(2)] have "dot_separated (\<lambda>s. s \<in> A) (z @ ys)" .
  with star_app.prems have "dot_separated (\<lambda>s. s \<in> A) (x @ ''.'' @ (z @ ys))"
    by (intro dot_more)
  with y show ?case by simp
qed

lemma dot_list_sup:
  assumes "dot_separated (\<lambda>s. s \<in> A) w"
  shows "w \<in> conc A (star (conc {''.''} A))"
  using assms
proof (induction rule: dot_separated.induct)
  case (dot_single s)
  then have "s @ [] \<in> conc A (star (conc {''.''} A))"
    by (intro concI star_nil)
  then show ?case by simp
next
  case (dot_more s t)
  from dot_more.IH obtain y ys where t: "t = y @ ys" "y \<in> A" "ys \<in> star (conc {''.''} A)"
    by (auto simp: in_conc)
  from t(2) have "''.'' @ y \<in> conc {''.''} A"
    by (intro concI) simp_all
  from this t(3) have "(''.'' @ y) @ ys \<in> star (conc {''.''} A)"
    by (rule star_app)
  with dot_more.hyps(1) have "s @ ((''.'' @ y) @ ys) \<in> conc A (star (conc {''.''} A))"
    by (rule concI)
  with t show ?case by simp
qed

lemma lang_dot_list:
  "w \<in> lang (Cat r (Star (Cat (Lit CHR ''.'') r))) \<longleftrightarrow> dot_separated (\<lambda>s. s \<in> lang r) w"
proof
  assume "w \<in> lang (Cat r (Star (Cat (Lit CHR ''.'') r)))"
  then obtain x ys where "w = x @ ys" "x \<in> lang r" "ys \<in> star (conc {''.''} (lang r))"
    by (auto simp: in_conc lang_Lit)
  then show "dot_separated (\<lambda>s. s \<in> lang r) w"
    using dot_list_sub by blast
next
  assume "dot_separated (\<lambda>s. s \<in> lang r) w"
  then show "w \<in> lang (Cat r (Star (Cat (Lit CHR ''.'') r)))"
    using dot_list_sup [of "lang r" w] by (simp add: lang_Lit)
qed

lemma dot_separated_cong: "(\<And>s. P s \<longleftrightarrow> Q s) \<Longrightarrow> dot_separated P w \<longleftrightarrow> dot_separated Q w"
proof -
  assume "\<And>s. P s \<longleftrightarrow> Q s"
  then have "P = Q" by blast
  then show ?thesis by simp
qed

lemma lang_pre_release:
  "w \<in> lang (Cat rxPreId (Star (Cat (Lit CHR ''.'') rxPreId))) \<longleftrightarrow> pre_release w"
  unfolding lang_dot_list pre_release_def
  by (rule dot_separated_cong) (rule lang_rxPreId)

lemma lang_build:
  "w \<in> lang (Cat (Plus rxIdChar) (Star (Cat (Lit CHR ''.'') (Plus rxIdChar)))) \<longleftrightarrow> build w"
  unfolding lang_dot_list build_def
  by (rule dot_separated_cong) (rule lang_plus_rxIdChar)

subsection \<open>The whole pattern\<close>

lemma conc_assoc: "conc A (conc B C) = conc (conc A B) C"
proof (rule set_eqI)
  fix w
  show "w \<in> conc A (conc B C) \<longleftrightarrow> w \<in> conc (conc A B) C"
  proof
    assume "w \<in> conc A (conc B C)"
    then obtain a b c where "w = a @ b @ c" "a \<in> A" "b \<in> B" "c \<in> C"
      by (auto simp: in_conc)
    then have "w = (a @ b) @ c" "a @ b \<in> conc A B" "c \<in> C"
      by (simp_all add: concI)
    then show "w \<in> conc (conc A B) C"
      using concI by blast
  next
    assume "w \<in> conc (conc A B) C"
    then obtain a b c where "w = (a @ b) @ c" "a \<in> A" "b \<in> B" "c \<in> C"
      by (auto simp: in_conc)
    then have "w = a @ (b @ c)" "a \<in> A" "b @ c \<in> conc B C"
      by (simp_all add: concI)
    then show "w \<in> conc A (conc B C)"
      using concI by blast
  qed
qed

lemma conc_single: "w \<in> conc {[a]} B \<longleftrightarrow> (\<exists>t. w = a # t \<and> t \<in> B)"
  by (auto simp: in_conc)

lemma lang_semver_split:
  "lang semverRegExp = conc (lang rxCore) (conc (lang rxPreSuffix) (lang rxBuildSuffix))"
  unfolding semverRegExp_def rxCore_def rxPreSuffix_def rxBuildSuffix_def
  by (simp only: lang.simps conc_assoc)

lemma lang_rxCore: "w \<in> lang rxCore \<longleftrightarrow> version_core w"
proof -
  have "w \<in> lang rxCore \<longleftrightarrow>
      (\<exists>major r1. w = major @ r1 \<and> major \<in> lang rxNumId \<and>
        (\<exists>r2. r1 = CHR ''.'' # r2 \<and>
          (\<exists>minor r3. r2 = minor @ r3 \<and> minor \<in> lang rxNumId \<and>
            (\<exists>patch. r3 = CHR ''.'' # patch \<and> patch \<in> lang rxNumId))))"
    unfolding rxCore_def lang.simps lang_Lit
    by (simp only: in_conc [of _ "lang rxNumId"] conc_single)
  also have "\<dots> \<longleftrightarrow> (\<exists>major minor patch. numeric_identifier major \<and> numeric_identifier minor \<and>
      numeric_identifier patch \<and> w = major @ ''.'' @ minor @ ''.'' @ patch)"
    unfolding lang_rxNumId append_Cons append_Nil by blast
  finally show ?thesis
    by (simp only: version_core_def)
qed

lemma lang_rxPreSuffix:
  "w \<in> lang rxPreSuffix \<longleftrightarrow> w = [] \<or> (\<exists>p. w = CHR ''-'' # p \<and> pre_release p)"
proof -
  have "w \<in> lang rxPreSuffix \<longleftrightarrow> w = [] \<or>
      (\<exists>p. w = CHR ''-'' # p \<and> p \<in> lang (Cat rxPreId (Star (Cat (Lit CHR ''.'') rxPreId))))"
    unfolding rxPreSuffix_def lang_Opt
    by (subst lang.simps) (auto simp only: lang_Lit conc_single Un_iff singleton_iff)
  then show ?thesis
    by (simp only: lang_pre_release)
qed

lemma lang_rxBuildSuffix:
  "w \<in> lang rxBuildSuffix \<longleftrightarrow> w = [] \<or> (\<exists>b. w = CHR ''+'' # b \<and> build b)"
proof -
  have "w \<in> lang rxBuildSuffix \<longleftrightarrow> w = [] \<or>
      (\<exists>b. w = CHR ''+'' # b \<and>
         b \<in> lang (Cat (Plus rxIdChar) (Star (Cat (Lit CHR ''.'') (Plus rxIdChar)))))"
    unfolding rxBuildSuffix_def lang_Opt
    by (subst lang.simps) (auto simp only: lang_Lit conc_single Un_iff singleton_iff)
  then show ?thesis
    by (simp only: lang_build)
qed

lemma valid_semver_iff:
  "valid_semver w \<longleftrightarrow>
     (\<exists>c p b. w = c @ p @ b \<and> version_core c \<and>
        (p = [] \<or> (\<exists>p'. p = CHR ''-'' # p' \<and> pre_release p')) \<and>
        (b = [] \<or> (\<exists>b'. b = CHR ''+'' # b' \<and> build b')))"
proof
  assume "valid_semver w"
  then show "\<exists>c p b. w = c @ p @ b \<and> version_core c \<and>
        (p = [] \<or> (\<exists>p'. p = CHR ''-'' # p' \<and> pre_release p')) \<and>
        (b = [] \<or> (\<exists>b'. b = CHR ''+'' # b' \<and> build b'))"
  proof (cases rule: valid_semver.cases)
    case semver_core
    then have "w = w @ [] @ [] \<and> version_core w" by simp
    then show ?thesis by blast
  next
    case (semver_pre s p)
    then have "w = s @ (CHR ''-'' # p) @ [] \<and> version_core s \<and> pre_release p" by simp
    then show ?thesis by blast
  next
    case (semver_build s b)
    then have "w = s @ [] @ (CHR ''+'' # b) \<and> version_core s \<and> build b" by simp
    then show ?thesis by blast
  next
    case (semver_pre_build s p b)
    then have "w = s @ (CHR ''-'' # p) @ (CHR ''+'' # b) \<and> version_core s \<and> pre_release p \<and> build b"
      by simp
    then show ?thesis by blast
  qed
next
  assume "\<exists>c p b. w = c @ p @ b \<and> version_core c \<and>
        (p = [] \<or> (\<exists>p'. p = CHR ''-'' # p' \<and> pre_release p')) \<and>
        (b = [] \<or> (\<exists>b'. b = CHR ''+'' # b' \<and> build b'))"
  then obtain c p b where w: "w = c @ p @ b" "version_core c"
    and p: "p = [] \<or> (\<exists>p'. p = CHR ''-'' # p' \<and> pre_release p')"
    and b: "b = [] \<or> (\<exists>b'. b = CHR ''+'' # b' \<and> build b')"
    by blast
  from p show "valid_semver w"
  proof
    assume p0: "p = []"
    from b show ?thesis
    proof
      assume "b = []"
      with p0 w show ?thesis by (simp add: semver_core)
    next
      assume "\<exists>b'. b = CHR ''+'' # b' \<and> build b'"
      then obtain b' where "b = CHR ''+'' # b'" "build b'" by blast
      with p0 w semver_build [of c b'] show ?thesis by simp
    qed
  next
    assume "\<exists>p'. p = CHR ''-'' # p' \<and> pre_release p'"
    then obtain p' where p': "p = CHR ''-'' # p'" "pre_release p'" by blast
    from b show ?thesis
    proof
      assume "b = []"
      with p' w semver_pre [of c p'] show ?thesis by simp
    next
      assume "\<exists>b'. b = CHR ''+'' # b' \<and> build b'"
      then obtain b' where "b = CHR ''+'' # b'" "build b'" by blast
      with p' w semver_pre_build [of c p' b'] show ?thesis by simp
    qed
  qed
qed

lemma lang_semverRegExp: "w \<in> lang semverRegExp \<longleftrightarrow> valid_semver w"
  unfolding lang_semver_split valid_semver_iff
  unfolding in_conc lang_rxCore lang_rxPreSuffix lang_rxBuildSuffix
  by blast

lemma matches_semver: "matches semverRegExp w \<longleftrightarrow> valid_semver w"
  by (simp only: matches_lang lang_semverRegExp)

section \<open>The loop over the versions of a page\<close>

lemma inspectVersion_Inr:
  assumes "inspectVersion now node st = Inr st'"
  shows "requests st' = requests st \<and> vars st' = vars st"
  using assms
  by (auto simp: inspectVersion_def Let_def split: list.splits if_splits ID.splits)

lemma inspectVersion_Inl:
  assumes "inspectVersion now node st = Inl (out, st')"
  shows "requests st' = requests st \<and> vars st' = vars st \<and> (\<exists>m. out = Panicked m)"
  using assms
  by (auto simp: inspectVersion_def Let_def split: list.splits if_splits ID.splits)


lemma rangeVersions_Inr:
  "rangeVersions now nodes st = Inr st' \<Longrightarrow> requests st' = requests st \<and> vars st' = vars st"
proof (induction nodes arbitrary: st)
  case Nil
  then show ?case by simp
next
  case (Cons node nodes)
  then show ?case
    by (auto split: sum.splits dest: inspectVersion_Inr)
qed

lemma rangeVersions_Inl:
  "rangeVersions now nodes st = Inl (out, st') \<Longrightarrow>
     requests st' = requests st \<and> vars st' = vars st \<and> (\<exists>m. out = Panicked m)"
proof (induction nodes arbitrary: st)
  case Nil
  then show ?case by simp
next
  case (Cons node nodes)
  show ?case
  proof (cases "inspectVersion now node st")
    case (Inl stop)
    with Cons.prems have "inspectVersion now node st = Inl (out, st')" by simp
    then show ?thesis by (rule inspectVersion_Inl)
  next
    case (Inr st1)
    with Cons.prems have "rangeVersions now nodes st1 = Inl (out, st')" by simp
    from Cons.IH [OF this] inspectVersion_Inr [OF Inr] show ?thesis by simp
  qed
qed


section \<open>Queries that fail\<close>

lemma no_failure_final: "no_failure cl rs \<Longrightarrow> failure_is_final cl out rs"
  by (simp add: no_failure_def failure_is_final_def)

lemma no_failure_snoc:
  assumes "no_failure cl rs" "cl (length rs) v = Inr query"
  shows "no_failure cl (rs @ [v])"
  unfolding no_failure_def
proof (intro allI impI)
  fix i err
  assume i: "i < length (rs @ [v])"
  show "cl i ((rs @ [v]) ! i) \<noteq> Inl err"
  proof (cases "i < length rs")
    case True
    with assms(1) show ?thesis by (simp add: no_failure_def nth_append)
  next
    case False
    with i have "i = length rs" by simp
    with assms(2) show ?thesis by simp
  qed
qed

lemma failure_snoc:
  assumes "no_failure cl rs" "cl (length rs) v = Inl err"
  shows "failure_is_final cl (Fatal (query_failure err)) (rs @ [v])"
  unfolding failure_is_final_def
proof (intro allI impI)
  fix i e
  assume i: "i < length (rs @ [v])" and e: "cl i ((rs @ [v]) ! i) = Inl e"
  show "Fatal (query_failure err) = Fatal (query_failure e) \<and>
      Suc i = length (rs @ [v])"
  proof (cases "i < length rs")
    case True
    with assms(1) e show ?thesis by (simp add: no_failure_def nth_append)
  next
    case False
    with i have "i = length rs" by simp
    with assms(2) e show ?thesis by simp
  qed
qed

lemma versionsPages_failure:
  assumes "no_failure cl (requests st)"
  shows "case versionsPages k cl now st of
           Inl (out, st') \<Rightarrow> failure_is_final cl out (requests st')
         | Inr (query, st') \<Rightarrow> no_failure cl (requests st')"
  using assms
proof (induction k arbitrary: st)
  case 0
  then show ?case by (simp add: no_failure_final)
next
  case (Suc k)
  define st1 where "st1 = st\<lparr>requests := requests st @ [vars st]\<rparr>"
  show ?case
  proof (cases "cl (length (requests st)) (vars st)")
    case (Inl err)
    with Suc.prems show ?thesis
      by (simp add: failure_snoc)
  next
    case (Inr query)
    with Suc.prems have nf: "no_failure cl (requests st1)"
      by (simp add: st1_def no_failure_snoc)
    show ?thesis
    proof (cases "package_Nodes query")
      case Nil
      with Inr nf show ?thesis by (simp add: st1_def)
    next
      case (Cons pkg rest)
      define st1' where "st1' = st1\<lparr>log := log st1 @ [LogInspecting (package_ID pkg) (Name pkg)]\<rparr>"
      have nf': "no_failure cl (requests st1')" using nf by (simp add: st1'_def)
      show ?thesis
      proof (cases "rangeVersions now (version_Nodes (Versions pkg)) st1'")
        case (Inl stop)
        obtain out st' where stop: "stop = (out, st')" by (cases stop)
        from rangeVersions_Inl [OF Inl [unfolded stop]] nf'
        have "failure_is_final cl out (requests st')"
          by (simp add: no_failure_final)
        with Inr Cons Inl stop show ?thesis
          by (simp add: st1_def st1'_def)
      next
        case (Inr st2)
        from rangeVersions_Inr [OF Inr] nf' have nf2: "no_failure cl (requests st2)"
          by simp
        show ?thesis
        proof (cases "HasNextPage (version_PageInfo (Versions pkg))")
          case False
          with \<open>cl (length (requests st)) (vars st) = Inr query\<close> Cons Inr nf2 show ?thesis
            by (simp add: st1_def st1'_def)
        next
          case True
          define st3 where "st3 = st2\<lparr>vars := (vars st2)\<lparr>versionsCursor :=
            Some (EndCursor (version_PageInfo (Versions pkg)))\<rparr>\<rparr>"
          from nf2 have "no_failure cl (requests st3)" by (simp add: st3_def)
          from Suc.IH [OF this]
          have "case versionsPages k cl now st3 of
                  Inl (out, st') \<Rightarrow> failure_is_final cl out (requests st')
                | Inr (query, st') \<Rightarrow> no_failure cl (requests st')" .
          with \<open>cl (length (requests st)) (vars st) = Inr query\<close> Cons Inr True show ?thesis
            by (simp add: st1_def st1'_def st3_def)
        qed
      qed
    qed
  qed
qed

lemma packagesLoop_failure:
  assumes "no_failure cl (requests st)" "packagesLoop k n cl now st = (out, st')"
  shows "failure_is_final cl out (requests st')"
  using assms
proof (induction n arbitrary: st)
  case 0
  then show ?case by (auto simp: no_failure_final)
next
  case (Suc n)
  from versionsPages_failure [OF Suc.prems(1), where k = k and now = now]
  have vp: "case versionsPages k cl now st of
           Inl (out, st') \<Rightarrow> failure_is_final cl out (requests st')
         | Inr (query, st') \<Rightarrow> no_failure cl (requests st')" .
  show ?case
  proof (cases "versionsPages k cl now st")
    case (Inl stop)
    with Suc.prems(2) have "stop = (out, st')" by simp
    with vp Inl show ?thesis by simp
  next
    case (Inr r)
    obtain query st1 where r: "r = (query, st1)" by (cases r)
    with vp Inr have nf: "no_failure cl (requests st1)" by simp
    show ?thesis
    proof (cases "HasNextPage (package_PageInfo query)")
      case False
      with Suc.prems(2) Inr r have "out = Returned" "st' = st1" by simp_all
      with nf show ?thesis by (simp add: no_failure_final)
    next
      case True
      define st2 where "st2 = st1\<lparr>vars := (vars st1)\<lparr>packagesCursor :=
        Some (EndCursor (package_PageInfo query))\<rparr>\<rparr>"
      from nf have nf2: "no_failure cl (requests st2)" by (simp add: st2_def)
      from Suc.prems(2) Inr r True have "packagesLoop k n cl now st2 = (out, st')"
        by (simp add: st2_def)
      from Suc.IH [OF nf2 this] show ?thesis .
    qed
  qed
qed

section \<open>The sequence of queries\<close>

lemma chain_butlast: "chain cl (rs @ [v]) \<Longrightarrow> chain cl rs"
  unfolding chain_def
proof (intro allI impI)
  fix i
  assume c: "\<forall>i. Suc i < length (rs @ [v]) \<longrightarrow>
      (\<exists>query. cl i ((rs @ [v]) ! i) = Inr query \<and>
         next_request query ((rs @ [v]) ! i) = Some ((rs @ [v]) ! Suc i))"
    and i: "Suc i < length rs"
  from i have "Suc i < length (rs @ [v])" by simp
  with c have "\<exists>query. cl i ((rs @ [v]) ! i) = Inr query \<and>
         next_request query ((rs @ [v]) ! i) = Some ((rs @ [v]) ! Suc i)" by blast
  with i show "\<exists>query. cl i (rs ! i) = Inr query \<and> next_request query (rs ! i) = Some (rs ! Suc i)"
    by (simp add: nth_append)
qed

lemma chain_snoc:
  assumes "chain cl rs" "rs \<noteq> []" "cl (length rs - 1) (last rs) = Inr query"
    "next_request query (last rs) = Some v"
  shows "chain cl (rs @ [v])"
  unfolding chain_def
proof (intro allI impI)
  fix i
  assume i: "Suc i < length (rs @ [v])"
  show "\<exists>query. cl i ((rs @ [v]) ! i) = Inr query \<and>
         next_request query ((rs @ [v]) ! i) = Some ((rs @ [v]) ! Suc i)"
  proof (cases "Suc i < length rs")
    case True
    with assms(1) have "\<exists>query. cl i (rs ! i) = Inr query \<and>
        next_request query (rs ! i) = Some (rs ! Suc i)"
      by (simp add: chain_def)
    with True show ?thesis by (simp add: nth_append)
  next
    case False
    with i have i': "Suc i = length rs" by simp
    then have "i = length rs - 1" by simp
    with assms(2) have "rs ! i = last rs" "i = length rs - 1"
      by (simp_all add: last_conv_nth)
    with assms(3,4) i' show ?thesis
      by (auto simp: nth_append)
  qed
qed

lemma versionsPages_chain:
  assumes "chain cl (requests st @ [vars st])"
  shows "case versionsPages k cl now st of
           Inl (out, st') \<Rightarrow> chain cl (requests st')
         | Inr (query, st') \<Rightarrow>
             chain cl (requests st') \<and> requests st' \<noteq> [] \<and> last (requests st') = vars st' \<and>
             cl (length (requests st') - 1) (vars st') = Inr query \<and>
             (\<forall>pkg rest. package_Nodes query = pkg # rest \<longrightarrow>
                \<not> HasNextPage (version_PageInfo (Versions pkg)))"
  using assms
proof (induction k arbitrary: st)
  case 0
  then show ?case by (simp add: chain_butlast)
next
  case (Suc k)
  define st1 where "st1 = st\<lparr>requests := requests st @ [vars st]\<rparr>"
  from Suc.prems have c1: "chain cl (requests st1)" by (simp add: st1_def)
  show ?case
  proof (cases "cl (length (requests st)) (vars st)")
    case (Inl err)
    with c1 show ?thesis by (simp add: st1_def)
  next
    case answer: (Inr query)
    show ?thesis
    proof (cases "package_Nodes query")
      case Nil
      with answer c1 show ?thesis by (simp add: st1_def)
    next
      case (Cons pkg rest)
      define st1' where "st1' = st1\<lparr>log := log st1 @ [LogInspecting (package_ID pkg) (Name pkg)]\<rparr>"
      show ?thesis
      proof (cases "rangeVersions now (version_Nodes (Versions pkg)) st1'")
        case (Inl stop)
        obtain out st' where stop: "stop = (out, st')" by (cases stop)
        from rangeVersions_Inl [OF Inl [unfolded stop]] c1
        have "chain cl (requests st')" by (simp add: st1'_def)
        with answer Cons Inl stop show ?thesis
          by (simp add: st1_def st1'_def)
      next
        case (Inr st2)
        from rangeVersions_Inr [OF Inr]
        have st2: "requests st2 = requests st @ [vars st]" "vars st2 = vars st"
          by (simp_all add: st1'_def st1_def)
        show ?thesis
        proof (cases "HasNextPage (version_PageInfo (Versions pkg))")
          case False
          with answer Cons Inr st2 c1 show ?thesis
            by (simp add: st1_def st1'_def)
        next
          case True
          define st3 where "st3 = st2\<lparr>vars := (vars st2)\<lparr>versionsCursor :=
            Some (EndCursor (version_PageInfo (Versions pkg)))\<rparr>\<rparr>"
          have "next_request query (vars st) = Some (vars st3)"
            using Cons True by (simp add: next_request_def st3_def st2)
          with answer c1 have "chain cl (requests st1 @ [vars st3])"
            by (intro chain_snoc [where query = query]) (simp_all add: st1_def)
          then have "chain cl (requests st3 @ [vars st3])"
            by (simp add: st3_def st2 st1_def)
          from Suc.IH [OF this]
          have "case versionsPages k cl now st3 of
                  Inl (out, st') \<Rightarrow> chain cl (requests st')
                | Inr (query, st') \<Rightarrow>
                    chain cl (requests st') \<and> requests st' \<noteq> [] \<and> last (requests st') = vars st' \<and>
                    cl (length (requests st') - 1) (vars st') = Inr query \<and>
                    (\<forall>pkg rest. package_Nodes query = pkg # rest \<longrightarrow>
                       \<not> HasNextPage (version_PageInfo (Versions pkg)))" .
          with answer Cons Inr True show ?thesis
            by (simp add: st1_def st1'_def st3_def)
        qed
      qed
    qed
  qed
qed

lemma packagesLoop_chain:
  assumes "chain cl (requests st @ [vars st])" "packagesLoop k n cl now st = (out, st')"
  shows "chain cl (requests st')"
  using assms
proof (induction n arbitrary: st)
  case 0
  then show ?case by (auto simp: chain_butlast)
next
  case (Suc n)
  note vp = versionsPages_chain [OF Suc.prems(1), where k = k and now = now]
  show ?case
  proof (cases "versionsPages k cl now st")
    case (Inl stop)
    with Suc.prems(2) have "stop = (out, st')" by simp
    with vp Inl show ?thesis by simp
  next
    case (Inr r)
    obtain query st1 where r: "r = (query, st1)" by (cases r)
    with vp Inr have st1: "chain cl (requests st1)" "requests st1 \<noteq> []"
      "last (requests st1) = vars st1" "cl (length (requests st1) - 1) (vars st1) = Inr query"
      "\<forall>pkg rest. package_Nodes query = pkg # rest \<longrightarrow>
          \<not> HasNextPage (version_PageInfo (Versions pkg))"
      by simp_all
    show ?thesis
    proof (cases "HasNextPage (package_PageInfo query)")
      case False
      with Suc.prems(2) Inr r have "st' = st1" by simp
      with st1 show ?thesis by simp
    next
      case True
      define st2 where "st2 = st1\<lparr>vars := (vars st1)\<lparr>packagesCursor :=
        Some (EndCursor (package_PageInfo query))\<rparr>\<rparr>"
      from st1(5) True have "next_request query (vars st1) = Some (vars st2)"
        by (cases "package_Nodes query") (simp_all add: next_request_def st2_def)
      with st1 have "chain cl (requests st1 @ [vars st2])"
        by (intro chain_snoc [where query = query]) simp_all
      then have c2: "chain cl (requests st2 @ [vars st2])" by (simp add: st2_def)
      from Suc.prems(2) Inr r True have "packagesLoop k n cl now st2 = (out, st')"
        by (simp add: st2_def)
      from Suc.IH [OF c2 this] show ?thesis .
    qed
  qed
qed

lemma continues_same: "requests st' = requests st \<Longrightarrow> continues st st'"
  by (simp add: continues_def)

lemma continues_sent:
  assumes "requests st1 = requests st @ [vars st]" "continues st1 st'"
  shows "continues st st'"
proof -
  from assms(2) obtain ext where "requests st' = requests st1 @ ext"
    by (auto simp: continues_def)
  with assms(1) have "requests st' = requests st @ (vars st # ext)" by simp
  then show ?thesis
    unfolding continues_def by (intro exI [of _ "vars st # ext"]) simp
qed

lemma continues_step:
  assumes "continues st st1" "requests st1 \<noteq> requests st" "requests st2 = requests st1"
    "continues st2 st'"
  shows "continues st st'"
proof -
  from assms(1,2) obtain ext where ext: "requests st1 = requests st @ ext" "ext \<noteq> []"
    "hd ext = vars st"
    by (auto simp: continues_def)
  from assms(4) obtain ext' where "requests st' = requests st2 @ ext'"
    by (auto simp: continues_def)
  with assms(3) ext have "requests st' = requests st @ (ext @ ext')" "hd (ext @ ext') = vars st"
    by simp_all
  then show ?thesis
    unfolding continues_def by blast
qed

lemma versionsPages_continues:
  "case versionsPages k cl now st of
     Inl (out, st') \<Rightarrow> continues st st'
   | Inr (query, st') \<Rightarrow> continues st st' \<and> requests st' \<noteq> requests st"
proof (induction k arbitrary: st)
  case 0
  show ?case by (simp add: continues_same)
next
  case (Suc k)
  define st1 where "st1 = st\<lparr>requests := requests st @ [vars st]\<rparr>"
  have sent: "requests st1 = requests st @ [vars st]" by (simp add: st1_def)
  have c1: "continues st st1"
    by (rule continues_sent [OF sent]) (simp add: continues_same)
  show ?case
  proof (cases "cl (length (requests st)) (vars st)")
    case (Inl err)
    with c1 show ?thesis by (simp add: st1_def)
  next
    case answer: (Inr query)
    show ?thesis
    proof (cases "package_Nodes query")
      case Nil
      with answer c1 show ?thesis by (simp add: st1_def)
    next
      case (Cons pkg rest)
      define st1' where "st1' = st1\<lparr>log := log st1 @ [LogInspecting (package_ID pkg) (Name pkg)]\<rparr>"
      show ?thesis
      proof (cases "rangeVersions now (version_Nodes (Versions pkg)) st1'")
        case (Inl stop)
        obtain out st' where stop: "stop = (out, st')" by (cases stop)
        from rangeVersions_Inl [OF Inl [unfolded stop]]
        have "requests st' = requests st @ [vars st]" by (simp add: st1'_def st1_def)
        then have "continues st st'"
          by (rule continues_sent) (simp add: continues_same)
        with answer Cons Inl stop show ?thesis
          by (simp add: st1_def st1'_def)
      next
        case (Inr st2)
        from rangeVersions_Inr [OF Inr]
        have st2: "requests st2 = requests st @ [vars st]"
          by (simp add: st1'_def st1_def)
        then have c2: "continues st st2"
          by (rule continues_sent) (simp add: continues_same)
        show ?thesis
        proof (cases "HasNextPage (version_PageInfo (Versions pkg))")
          case False
          with answer Cons Inr st2 c2 show ?thesis
            by (simp add: st1_def st1'_def)
        next
          case True
          define st3 where "st3 = st2\<lparr>vars := (vars st2)\<lparr>versionsCursor :=
            Some (EndCursor (version_PageInfo (Versions pkg)))\<rparr>\<rparr>"
          have r3: "requests st3 = requests st2" by (simp add: st3_def)
          have ne: "requests st2 \<noteq> requests st" by (simp add: st2)
          note IH = Suc.IH [where st = st3]
          have "case versionsPages k cl now st3 of
                  Inl (out, st') \<Rightarrow> continues st st'
                | Inr (query, st') \<Rightarrow> continues st st' \<and> requests st' \<noteq> requests st"
          proof (cases "versionsPages k cl now st3")
            case (Inl stop)
            obtain out st' where stop: "stop = (out, st')" by (cases stop)
            with IH Inl have "continues st3 st'" by simp
            from continues_step [OF c2 ne r3 this] Inl stop show ?thesis by simp
          next
            case (Inr r)
            obtain query' st' where r: "r = (query', st')" by (cases r)
            with IH Inr have c3: "continues st3 st'" by simp
            from continues_step [OF c2 ne r3 this] have c: "continues st st'" .
            from c3 st2 r3 have "requests st' \<noteq> requests st"
              by (auto simp: continues_def)
            with c Inr r show ?thesis by simp
          qed
          with answer Cons Inr True show ?thesis
            by (simp add: st1_def st1'_def st3_def)
        qed
      qed
    qed
  qed
qed

lemma packagesLoop_continues:
  "packagesLoop k n cl now st = (out, st') \<Longrightarrow> continues st st'"
proof (induction n arbitrary: st)
  case 0
  then show ?case by (auto simp: continues_same)
next
  case (Suc n)
  note vp = versionsPages_continues [where k = k and cl = cl and now = now and st = st]
  show ?case
  proof (cases "versionsPages k cl now st")
    case (Inl stop)
    with Suc.prems have "stop = (out, st')" by simp
    with vp Inl show ?thesis by simp
  next
    case (Inr r)
    obtain query st1 where r: "r = (query, st1)" by (cases r)
    with vp Inr have c1: "continues st st1" and ne: "requests st1 \<noteq> requests st" by simp_all
    show ?thesis
    proof (cases "HasNextPage (package_PageInfo query)")
      case False
      with Suc.prems Inr r have "st' = st1" by simp
      with c1 show ?thesis by simp
    next
      case True
      define st2 where "st2 = st1\<lparr>vars := (vars st1)\<lparr>packagesCursor :=
        Some (EndCursor (package_PageInfo query))\<rparr>\<rparr>"
      have r2: "requests st2 = requests st1" by (simp add: st2_def)
      from Suc.prems Inr r True have "packagesLoop k n cl now st2 = (out, st')"
        by (simp add: st2_def)
      from Suc.IH [OF this] have "continues st2 st'" .
      from continues_step [OF c1 ne r2 this] show ?thesis .
    qed
  qed
qed

section \<open>The identifiers collected\<close>



section \<open>Runs of \<open>main\<close>\<close>

lemma main_cases:
  assumes "main w fuel = (out, e)"
  obtains (startup) "e = no_effects" "out \<noteq> Returned"
  | (run) owner name rest st where
      "Getenv w ''ROBOT_TOKEN'' \<noteq> []"
      "Split (Getenv w ''GITHUB_REPOSITORY'') CHR ''/'' = owner # name # rest"
      "packagesLoop fuel fuel (getClient w (Getenv w ''ROBOT_TOKEN'')) (Now w)
         \<lparr>vars = \<lparr>repositoryOwner = owner, repositoryName = name,
                  packagesCursor = None, versionsCursor = None\<rparr>,
          versions = [], log = [], requests = [], ticks = 0\<rparr> = (out, st)"
      "queried e = requests st"
      "out = Returned \<Longrightarrow> published e = [(''STALE_VERSIONS'', Join (versions st) '', '')]"
      "out = Returned \<Longrightarrow> logged e = log st @ [LogSetting (Join (versions st) '', '')]"
      "out \<noteq> Returned \<Longrightarrow> published e = []"
      "out \<noteq> Returned \<Longrightarrow> logged e = log st"
proof (cases "Getenv w ''ROBOT_TOKEN'' = [] \<or> Getenv w ''GITHUB_REPOSITORY'' = []")
  case True
  with assms have "e = no_effects" "out \<noteq> Returned"
    by (auto simp: main_def Let_def split: if_splits)
  then show ?thesis by (rule startup)
next
  case env: False
  show ?thesis
  proof (cases "Split (Getenv w ''GITHUB_REPOSITORY'') CHR ''/''")
    case Nil
    with assms env have "e = no_effects" "out \<noteq> Returned"
      by (auto simp: main_def Let_def)
    then show ?thesis by (rule startup)
  next
    case one: (Cons owner more)
    show ?thesis
    proof (cases more)
      case Nil
      with assms env one have "e = no_effects" "out \<noteq> Returned"
        by (auto simp: main_def Let_def)
      then show ?thesis by (rule startup)
    next
      case (Cons name rest)
      define st0 where "st0 = \<lparr>vars = \<lparr>repositoryOwner = owner, repositoryName = name,
                  packagesCursor = None, versionsCursor = None\<rparr>,
          versions = [], log = [], requests = [], ticks = 0\<rparr>"
      obtain out' st where loop:
        "packagesLoop fuel fuel (getClient w (Getenv w ''ROBOT_TOKEN'')) (Now w) st0 = (out', st)"
        by (cases "packagesLoop fuel fuel (getClient w (Getenv w ''ROBOT_TOKEN'')) (Now w) st0")
      from assms env one Cons loop have m:
        "(out, e) = (if out' = Returned
           then (Returned, \<lparr>logged = log st @ [LogSetting (Join (versions st) '', '')],
                 queried = requests st,
                 published = [(''STALE_VERSIONS'', Join (versions st) '', '')]\<rparr>)
           else (out', \<lparr>logged = log st, queried = requests st, published = []\<rparr>))"
        by (cases out') (auto simp: main_def Let_def st0_def)
      then have out: "out = out'"
        by (simp split: if_splits)
      from m have e: "queried e = requests st"
        "out = Returned \<Longrightarrow> published e = [(''STALE_VERSIONS'', Join (versions st) '', '')]"
        "out = Returned \<Longrightarrow> logged e = log st @ [LogSetting (Join (versions st) '', '')]"
        "out \<noteq> Returned \<Longrightarrow> published e = []"
        "out \<noteq> Returned \<Longrightarrow> logged e = log st"
        by (auto split: if_splits)
      from env one Cons loop out e show ?thesis
        by (intro run [of owner name rest st]) (simp_all add: st0_def)
    qed
  qed
qed

lemma chain_one: "chain cl [v]"
  by (simp add: chain_def)

lemma no_failure_none: "no_failure cl []"
  by (simp add: no_failure_def)


section \<open>The tag classifier\<close>

lemma MatchString_reg: "MatchString reg tag \<longleftrightarrow> valid_semver tag"
  by (simp only: MatchString_def reg_def matches_semver)

lemmas pattern_defs = MatchString_def reg_def semverRegExp_def rxNumId_def rxPreId_def rxDigit_def
  rxNonDigit_def rxIdChar_def Lit_def Opt_def Plus_def in_class_def in_range_def

lemma matchVersion_iff: "matchVersion tag = (\<not> isProtectedTag tag)"
  unfolding matchVersion_def MatchString_reg isProtectedTag_def by auto

lemma matchVersion_tags:
  "matchVersion ''pr-7''" "matchVersion ''pr-8''" "matchVersion ''pr-42''" "matchVersion ''v1.0.0''"
  "\<not> matchVersion ''1.0.0''" "matchVersion ''pr-1''" "matchVersion ''pr-2''"
  by (simp_all add: matchVersion_def pattern_defs)

text \<open>
  Claim C1. For every tag, \<open>matchVersion\<close> is false, which is how the program treats a tag as
  protected, if and only if the tag is a semantic version by the grammar, or is \<open>latest\<close>, or
  is \<open>docker-base-layer\<close>. For every other tag it is true, and the version goes on to the test
  of its age; the empty tag is one of these. \<open>matchVersion\<close> is a total function to the
  truth values: there is no error to return.
\<close>

theorem matchVersion_protects_exactly:
  "(\<not> matchVersion tag) = (valid_semver tag \<or> tag = ''latest'' \<or> tag = ''docker-base-layer'') \<and>
   matchVersion tag = (\<not> isProtectedTag tag) \<and>
   matchVersion []"
proof -
  have 1: "(\<not> matchVersion tag) = (valid_semver tag \<or> tag = ''latest'' \<or> tag = ''docker-base-layer'')"
    unfolding matchVersion_def MatchString_reg by auto
  then have 2: "matchVersion tag = (\<not> isProtectedTag tag)"
    unfolding isProtectedTag_def by blast
  have 3: "matchVersion []"
    by (simp add: matchVersion_def pattern_defs)
  from 1 2 3 show ?thesis by blast
qed

theorem matchVersion_protects_exactly_witness:
  "valid_semver ''1.2.3-beta.1+build.5'' \<and> \<not> matchVersion ''1.2.3-beta.1+build.5'' \<and>
   \<not> valid_semver ''v1.0.0'' \<and> matchVersion ''v1.0.0'' \<and>
   \<not> valid_semver ''pr-42'' \<and> matchVersion ''pr-42'' \<and>
   \<not> valid_semver ''1.2'' \<and> matchVersion ''1.2'' \<and>
   \<not> valid_semver ''01.2.3'' \<and> matchVersion ''01.2.3'' \<and>
   \<not> valid_semver [] \<and> matchVersion [] \<and>
   \<not> matchVersion ''latest'' \<and> \<not> matchVersion ''docker-base-layer''"
proof -
  have a: "\<not> matchVersion ''1.2.3-beta.1+build.5''"
    by (simp add: matchVersion_def pattern_defs)
  have b: "matchVersion ''v1.0.0''"
    by (simp add: matchVersion_def pattern_defs)
  have c: "matchVersion ''pr-42''"
    by (simp add: matchVersion_def pattern_defs)
  have d: "matchVersion ''1.2''"
    by (simp add: matchVersion_def pattern_defs)
  have e: "matchVersion ''01.2.3''"
    by (simp add: matchVersion_def pattern_defs)
  have f: "matchVersion []"
    by (simp add: matchVersion_def pattern_defs)
  have g: "\<not> matchVersion ''latest''" "\<not> matchVersion ''docker-base-layer''"
    by (simp_all add: matchVersion_def)
  from a matchVersion_protects_exactly [of "''1.2.3-beta.1+build.5''", THEN conjunct1]
  have "valid_semver ''1.2.3-beta.1+build.5''" by simp
  moreover from b matchVersion_protects_exactly [of "''v1.0.0''", THEN conjunct1]
  have "\<not> valid_semver ''v1.0.0''" by simp
  moreover from c matchVersion_protects_exactly [of "''pr-42''", THEN conjunct1]
  have "\<not> valid_semver ''pr-42''" by simp
  moreover from d matchVersion_protects_exactly [of "''1.2''", THEN conjunct1]
  have "\<not> valid_semver ''1.2''" by simp
  moreover from e matchVersion_protects_exactly [of "''01.2.3''", THEN conjunct1]
  have "\<not> valid_semver ''01.2.3''" by simp
  moreover from f matchVersion_protects_exactly [of "[]", THEN conjunct1]
  have "\<not> valid_semver []" by simp
  ultimately show ?thesis
    using a b c d e f g by simp
qed

section \<open>The decision for one version\<close>

lemma inspectVersion_with_file:
  assumes "Files node = f # fs" "version_ID node = StringID i"
  shows "inspectVersion now node st =
    (if matchVersion (Version node)
     then (if UpdatedAt f < now (ticks st) - packageTTL
           then Inr (st\<lparr>ticks := Suc (ticks st), versions := versions st @ [i],
                  log := log st @ [LogStale (StringID i) (Version node) (UpdatedAt f)]\<rparr>)
           else Inr (st\<lparr>ticks := Suc (ticks st),
                  log := log st @ [LogSkip (StringID i) (Version node) (UpdatedAt f)]\<rparr>))
     else Inr (st\<lparr>log := log st @ [LogSkip (StringID i) (Version node) (UpdatedAt f)]\<rparr>))"
  using assms by (simp add: inspectVersion_def Let_def)

text \<open>
  Claim C2. The time to live is seven days. For a version with a file and a string
  identifier, inspecting it always goes on to the next version, and it appends the
  identifier to \<open>versions\<close> and logs the version as stale if and only if the tag is not
  protected and the timestamp of the file is strictly before the current time less seven
  days; otherwise \<open>versions\<close> is unchanged and the version is logged as skipped. For an
  unprotected tag, a file updated seven days and one second ago is stale; one updated seven
  days less one second ago, or exactly seven days ago, is not.
\<close>

theorem stale_iff_unprotected_and_old:
  assumes "Files node = f # fs" and "version_ID node = StringID i"
  shows "packageTTL = 7 * 24 * 3600 * Second \<and>
    (\<exists>st'. inspectVersion now node st = Inr st' \<and>
       (versions st' = versions st @ [i] \<longleftrightarrow>
          \<not> isProtectedTag (Version node) \<and> UpdatedAt f < now (ticks st) - 7 * Day) \<and>
       (versions st' = versions st \<longleftrightarrow>
          \<not> (\<not> isProtectedTag (Version node) \<and> UpdatedAt f < now (ticks st) - 7 * Day)) \<and>
       (last (log st') = LogStale (StringID i) (Version node) (UpdatedAt f) \<longleftrightarrow>
          \<not> isProtectedTag (Version node) \<and> UpdatedAt f < now (ticks st) - 7 * Day) \<and>
       (last (log st') = LogSkip (StringID i) (Version node) (UpdatedAt f) \<longleftrightarrow>
          \<not> (\<not> isProtectedTag (Version node) \<and> UpdatedAt f < now (ticks st) - 7 * Day)) \<and>
       (\<not> isProtectedTag (Version node) \<and> UpdatedAt f = now (ticks st) - 7 * Day - Second \<longrightarrow>
          versions st' = versions st @ [i]) \<and>
       (UpdatedAt f = now (ticks st) - 7 * Day + Second \<longrightarrow> versions st' = versions st) \<and>
       (UpdatedAt f = now (ticks st) - 7 * Day \<longrightarrow> versions st' = versions st))"
proof -
  have ttl: "packageTTL = 7 * Day" "packageTTL = 7 * 24 * 3600 * Second" "0 < Second"
    by (simp_all add: packageTTL_def Day_def Hour_def Second_def)
  show ?thesis
  proof (cases "\<not> isProtectedTag (Version node) \<and> UpdatedAt f < now (ticks st) - 7 * Day")
    case True
    with assms have "inspectVersion now node st =
        Inr (st\<lparr>ticks := Suc (ticks st), versions := versions st @ [i],
          log := log st @ [LogStale (StringID i) (Version node) (UpdatedAt f)]\<rparr>)"
      by (simp add: inspectVersion_with_file matchVersion_iff ttl(1))
    with True ttl show ?thesis by simp
  next
    case False
    then have "inspectVersion now node st =
        Inr (st\<lparr>ticks := Suc (ticks st),
          log := log st @ [LogSkip (StringID i) (Version node) (UpdatedAt f)]\<rparr>) \<or>
      inspectVersion now node st =
        Inr (st\<lparr>log := log st @ [LogSkip (StringID i) (Version node) (UpdatedAt f)]\<rparr>)"
      using assms by (auto simp: inspectVersion_with_file matchVersion_iff ttl(1))
    with False ttl show ?thesis by auto
  qed
qed

theorem stale_iff_unprotected_and_old_witness:
  "(\<exists>st'. inspectVersion (\<lambda>n. 100 * Day)
        (version_node ''V9'' ''pr-42'' [100 * Day - 7 * Day - Second])
        \<lparr>vars = \<lparr>repositoryOwner = ''percona'', repositoryName = ''app'',
           packagesCursor = None, versionsCursor = None\<rparr>,
         versions = [], log = [], requests = [], ticks = 0\<rparr> = Inr st' \<and>
      versions st' = [''V9'']) \<and>
   (\<exists>st'. inspectVersion (\<lambda>n. 100 * Day)
        (version_node ''V9'' ''pr-42'' [100 * Day - 7 * Day + Second])
        \<lparr>vars = \<lparr>repositoryOwner = ''percona'', repositoryName = ''app'',
           packagesCursor = None, versionsCursor = None\<rparr>,
         versions = [], log = [], requests = [], ticks = 0\<rparr> = Inr st' \<and>
      versions st' = [])"
proof -
  define st0 where "st0 = \<lparr>vars = \<lparr>repositoryOwner = ''percona'', repositoryName = ''app'',
       packagesCursor = None, versionsCursor = None\<rparr>,
     versions = [], log = [], requests = [], ticks = 0\<rparr>"
  have p: "\<not> isProtectedTag ''pr-42''"
    using matchVersion_tags(3) by (simp add: matchVersion_iff)
  have f1: "Files (version_node ''V9'' ''pr-42'' [100 * Day - 7 * Day - Second]) =
      \<lparr>UpdatedAt = 100 * Day - 7 * Day - Second\<rparr> # []"
    and i1: "version_ID (version_node ''V9'' ''pr-42'' [100 * Day - 7 * Day - Second]) = StringID ''V9''"
    by (simp_all add: version_node_def)
  have f2: "Files (version_node ''V9'' ''pr-42'' [100 * Day - 7 * Day + Second]) =
      \<lparr>UpdatedAt = 100 * Day - 7 * Day + Second\<rparr> # []"
    and i2: "version_ID (version_node ''V9'' ''pr-42'' [100 * Day - 7 * Day + Second]) = StringID ''V9''"
    by (simp_all add: version_node_def)
  from stale_iff_unprotected_and_old [OF f1 i1, of "\<lambda>n. 100 * Day" st0] p
  have a: "\<exists>st'. inspectVersion (\<lambda>n. 100 * Day)
        (version_node ''V9'' ''pr-42'' [100 * Day - 7 * Day - Second]) st0 = Inr st' \<and>
      versions st' = [''V9'']"
    by (auto simp: version_node_def st0_def)
  from stale_iff_unprotected_and_old [OF f2 i2, of "\<lambda>n. 100 * Day" st0]
  have b: "\<exists>st'. inspectVersion (\<lambda>n. 100 * Day)
        (version_node ''V9'' ''pr-42'' [100 * Day - 7 * Day + Second]) st0 = Inr st' \<and>
      versions st' = []"
    by (auto simp: version_node_def st0_def)
  from a b show ?thesis
    unfolding st0_def by blast
qed

section \<open>Pages of versions across packages\<close>

text \<open>
  Claim C3 wants the identifiers collected to be the same however the versions are split
  into pages. For the two packages of two versions each, all stale, a server with pages of
  two versions gives the four identifiers; a server with pages of one version gives three:
  the first query for the second package carries the versions cursor left by the first
  package, and the first version of the second package is never served.
\<close>

theorem page_split_loses_version:
  "fst (main (paged_world 2 two_packages (100 * Day)) 5) = Returned \<and>
   published (snd (main (paged_world 2 two_packages (100 * Day)) 5)) =
     [(''STALE_VERSIONS'', ''A1, A2, B1, B2'')] \<and>
   fst (main (paged_world 1 two_packages (100 * Day)) 5) = Returned \<and>
   published (snd (main (paged_world 1 two_packages (100 * Day)) 5)) =
     [(''STALE_VERSIONS'', ''A1, A2, B2'')] \<and>
   queried (snd (main (paged_world 1 two_packages (100 * Day)) 5)) =
     [\<lparr>repositoryOwner = ''percona'', repositoryName = ''app'',
        packagesCursor = None, versionsCursor = None\<rparr>,
      \<lparr>repositoryOwner = ''percona'', repositoryName = ''app'',
        packagesCursor = None, versionsCursor = Some ''I''\<rparr>,
      \<lparr>repositoryOwner = ''percona'', repositoryName = ''app'',
        packagesCursor = Some ''I'', versionsCursor = Some ''I''\<rparr>]"
  by code_simp

section \<open>The end-to-end scenario\<close>

text \<open>
  Claim C4 takes the tag \<open>v1.0.0\<close> for a semantic version. The pattern does not match it,
  since a semantic version starts with a digit; so the version is retained by its age
  only. With its file updated ten days ago it is reported as stale, and the value published
  is not the identifier of \<open>pr-8\<close> alone.
\<close>

theorem scenario_v_prefix_is_stale:
  "matchVersion ''v1.0.0'' \<and>
   main (paged_world 100 (scenario ''v1.0.0'' (90 * Day) (100 * Day)) (100 * Day)) 5 =
     (Returned,
      \<lparr>logged = [LogInspecting (StringID ''P1'') ''app'',
         LogStale (StringID ''V1'') ''v1.0.0'' (90 * Day),
         LogNoFiles (StringID ''V2'') ''pr-7'',
         LogStale (StringID ''V3'') ''pr-8'' (90 * Day),
         LogSetting ''V1, V3''],
       queried = [\<lparr>repositoryOwner = ''percona'', repositoryName = ''app'',
         packagesCursor = None, versionsCursor = None\<rparr>],
       published = [(''STALE_VERSIONS'', ''V1, V3'')]\<rparr>)"
  by code_simp

lemma scenario_run:
  "main (paged_world 100 (scenario tag u t) t) (Suc n) =
     (Returned,
      \<lparr>logged = [LogInspecting (StringID ''P1'') ''app'',
         (if matchVersion tag \<and> u < t - 7 * Day then LogStale (StringID ''V1'') tag u
          else LogSkip (StringID ''V1'') tag u),
         LogNoFiles (StringID ''V2'') ''pr-7'',
         LogStale (StringID ''V3'') ''pr-8'' (t - 10 * Day),
         LogSetting (if matchVersion tag \<and> u < t - 7 * Day then ''V1, V3'' else ''V3'')],
       queried = [\<lparr>repositoryOwner = ''percona'', repositoryName = ''app'',
         packagesCursor = None, versionsCursor = None\<rparr>],
       published = [(''STALE_VERSIONS'',
         if matchVersion tag \<and> u < t - 7 * Day then ''V1, V3'' else ''V3'')]\<rparr>)"
proof -
  have split: "Split ''percona/app'' CHR ''/'' = [''percona'', ''app'']"
    by (simp add: Split_def)
  have day: "0 < Day"
    by (simp add: Day_def Hour_def Second_def)
  have ttl: "packageTTL = 7 * Day"
    by (simp add: packageTTL_def Day_def)
  from day have old: "t - 10 * Day < t - 7 * Day"
    by simp
  show ?thesis
    by (simp add: main_def paged_world_def test_world_def getClient_def split paged_server_def
        page_nodes_def page_info_def position_def cursor_at_def serve_package_def scenario_def
        version_node_def inspectVersion_def matchVersion_tags ttl old Let_def)
qed

text \<open>
  Claim C4, amended. In the scenario with the first tag \<open>1.0.0\<close>, a semantic version, the
  run returns, retains the first version whatever the age of its file, skips \<open>pr-7\<close> for its
  lack of files, reports \<open>pr-8\<close> as stale and publishes the identifier of \<open>pr-8\<close> alone. With
  the first tag \<open>v1.0.0\<close> the same holds as long as the file of the first version is not
  older than seven days; when it is older, the first version is reported as stale too and
  both identifiers are published.
\<close>

theorem scenario_semver_retained:
  "main (paged_world 100 (scenario ''1.0.0'' u t) t) (Suc n) =
     (Returned,
      \<lparr>logged = [LogInspecting (StringID ''P1'') ''app'',
         LogSkip (StringID ''V1'') ''1.0.0'' u,
         LogNoFiles (StringID ''V2'') ''pr-7'',
         LogStale (StringID ''V3'') ''pr-8'' (t - 10 * Day),
         LogSetting ''V3''],
       queried = [\<lparr>repositoryOwner = ''percona'', repositoryName = ''app'',
         packagesCursor = None, versionsCursor = None\<rparr>],
       published = [(''STALE_VERSIONS'', ''V3'')]\<rparr>) \<and>
   fst (main (paged_world 100 (scenario ''v1.0.0'' u t) t) (Suc n)) = Returned \<and>
   published (snd (main (paged_world 100 (scenario ''v1.0.0'' u t) t) (Suc n))) =
     [(''STALE_VERSIONS'', if u < t - 7 * Day then ''V1, V3'' else ''V3'')]"
  by (simp add: scenario_run matchVersion_tags)

theorem scenario_semver_retained_witness:
  "published (snd (main (paged_world 100 (scenario ''1.0.0'' 0 (100 * Day)) (100 * Day)) 1)) =
     [(''STALE_VERSIONS'', ''V3'')] \<and>
   published (snd (main (paged_world 100 (scenario ''v1.0.0'' (95 * Day) (100 * Day)) (100 * Day)) 1)) =
     [(''STALE_VERSIONS'', ''V3'')]"
  using scenario_semver_retained [of 0 "100 * Day" 0]
    scenario_semver_retained [of "95 * Day" "100 * Day" 0]
  by (simp add: Day_def Hour_def Second_def)

section \<open>Versions without files\<close>




section \<open>Failing queries\<close>

text \<open>
  Claim C6. If a query of a run fails, whichever it is, the run ends there by
  \<open>githubactions.Fatalf\<close> with the message of line 91: the failed query is the last one sent
  (none is sent again and none follows) and nothing is published: the identifiers collected
  up to there have been logged, and are lost with the slice \<open>versions\<close> when the process
  exits. The outcome is \<open>Fatal\<close> and no other: in particular the run has ended.
\<close>

theorem query_failure_is_fatal:
  assumes "main w fuel = (out, e)"
    and "i < length (queried e)"
    and "getClient w (Getenv w ''ROBOT_TOKEN'') i (queried e ! i) = Inl err"
  shows "out = Fatal (''failed to query packages: '' @ err) \<and> published e = [] \<and>
    Suc i = length (queried e)"
  using assms(1)
proof (cases rule: main_cases)
  case startup
  with assms(2) show ?thesis by (simp add: no_effects_def)
next
  case (run owner name rest st)
  from packagesLoop_failure [OF _ run(3)]
  have "failure_is_final (getClient w (Getenv w ''ROBOT_TOKEN'')) out (requests st)"
    by (simp add: no_failure_none)
  with assms(2,3) run(4)
  have out: "out = Fatal (query_failure err)" and last: "Suc i = length (queried e)"
    by (auto simp: failure_is_final_def)
  from out have "out \<noteq> Returned" by simp
  with run(7) have "published e = []" .
  with out last show ?thesis by (simp add: query_failure_def)
qed

theorem query_failure_is_fatal_witness:
  "fst (main (test_world ''percona/app'' (failing_from 1 (paged_server 1 two_packages)) (100 * Day)) 5)
     = Fatal ''failed to query packages: timeout'' \<and>
   published (snd (main (test_world ''percona/app'' (failing_from 1 (paged_server 1 two_packages))
     (100 * Day)) 5)) = [] \<and>
   length (queried (snd (main (test_world ''percona/app'' (failing_from 1 (paged_server 1 two_packages))
     (100 * Day)) 5))) = 2 \<and>
   stale_ids (logged (snd (main (test_world ''percona/app''
     (failing_from 1 (paged_server 1 two_packages)) (100 * Day)) 5))) = [''A1'']"
proof -
  define w where "w = test_world ''percona/app'' (failing_from 1 (paged_server 1 two_packages)) (100 * Day)"
  define e where "e = snd (main w 5)"
  have m: "main w 5 = (fst (main w 5), e)" by (simp add: e_def)
  have q: "queried e =
      [\<lparr>repositoryOwner = ''percona'', repositoryName = ''app'',
         packagesCursor = None, versionsCursor = None\<rparr>,
       \<lparr>repositoryOwner = ''percona'', repositoryName = ''app'',
         packagesCursor = None, versionsCursor = Some ''I''\<rparr>]"
    unfolding e_def w_def by code_simp
  have l: "stale_ids (logged e) = [''A1'']"
    unfolding e_def w_def by code_simp
  have i: "1 < length (queried e)" by (simp add: q)
  have f: "getClient w (Getenv w ''ROBOT_TOKEN'') 1 (queried e ! 1) = Inl ''timeout''"
    by (simp add: q w_def getClient_def test_world_def failing_from_def)
  from query_failure_is_fatal [OF m i f] l
  show ?thesis
    by (simp add: e_def w_def)
qed

section \<open>A page without packages\<close>

text \<open>
  Claim C7 says that a page of packages without nodes ends the outer loop whatever its
  has-more flag. It does not: here the first answer has no nodes and announces a next
  page, and a second query is sent, with the packages cursor at the end cursor of the
  first answer.
\<close>

theorem empty_page_does_not_end_run:
  "empty_pages 0 \<lparr>repositoryOwner = ''percona'', repositoryName = ''app'',
       packagesCursor = None, versionsCursor = None\<rparr> =
     Inr \<lparr>package_Nodes = [],
          package_PageInfo = \<lparr>EndCursor = ''X'', HasNextPage = True\<rparr>\<rparr> \<and>
   queried (snd (main (test_world ''percona/app'' empty_pages 0) 5)) =
     [\<lparr>repositoryOwner = ''percona'', repositoryName = ''app'',
         packagesCursor = None, versionsCursor = None\<rparr>,
      \<lparr>repositoryOwner = ''percona'', repositoryName = ''app'',
         packagesCursor = Some ''X'', versionsCursor = None\<rparr>]"
  by code_simp

text \<open>
  Claim C7, amended. When the page of packages just fetched has no nodes, the inner loop
  ends at once: no version is inspected, nothing is logged and the versions cursor is left
  as it is. The outer loop then ends, and the run goes on to publish, exactly when the
  has-more flag of that page is false; when the flag is true, the packages cursor is set to
  the end cursor of the page and the traversal goes on with another query.
\<close>

theorem empty_page_ends_inner_loop:
  assumes "cl (length (requests st)) (vars st) = Inr query" and "package_Nodes query = []"
  shows "versionsPages (Suc k) cl now st = Inr (query, st\<lparr>requests := requests st @ [vars st]\<rparr>) \<and>
    packagesLoop (Suc k) (Suc n) cl now st =
      (if \<not> HasNextPage (package_PageInfo query)
       then (Returned, st\<lparr>requests := requests st @ [vars st]\<rparr>)
       else packagesLoop (Suc k) n cl now
         (st\<lparr>requests := requests st @ [vars st],
            vars := (vars st)\<lparr>packagesCursor := Some (EndCursor (package_PageInfo query))\<rparr>\<rparr>))"
  using assms by simp

theorem empty_page_ends_inner_loop_witness:
  "packagesLoop 5 1 empty_pages (\<lambda>n. 0)
     \<lparr>vars = \<lparr>repositoryOwner = ''percona'', repositoryName = ''app'',
        packagesCursor = Some ''X'', versionsCursor = None\<rparr>,
      versions = [], log = [],
      requests = [\<lparr>repositoryOwner = ''percona'', repositoryName = ''app'',
        packagesCursor = None, versionsCursor = None\<rparr>],
      ticks = 0\<rparr> =
   (Returned,
    \<lparr>vars = \<lparr>repositoryOwner = ''percona'', repositoryName = ''app'',
        packagesCursor = Some ''X'', versionsCursor = None\<rparr>,
      versions = [], log = [],
      requests = [\<lparr>repositoryOwner = ''percona'', repositoryName = ''app'',
          packagesCursor = None, versionsCursor = None\<rparr>,
        \<lparr>repositoryOwner = ''percona'', repositoryName = ''app'',
          packagesCursor = Some ''X'', versionsCursor = None\<rparr>],
      ticks = 0\<rparr>)"
proof -
  define st where "st = \<lparr>vars = \<lparr>repositoryOwner = ''percona'', repositoryName = ''app'',
        packagesCursor = Some ''X'', versionsCursor = None\<rparr>,
      versions = [], log = [],
      requests = [\<lparr>repositoryOwner = ''percona'', repositoryName = ''app'',
        packagesCursor = None, versionsCursor = None\<rparr>],
      ticks = 0\<rparr>"
  define query where "query = \<lparr>package_Nodes = [],
      package_PageInfo = \<lparr>EndCursor = ''X'', HasNextPage = False\<rparr>\<rparr>"
  have a: "empty_pages (length (requests st)) (vars st) = Inr query"
    by (simp add: st_def query_def empty_pages_def)
  have b: "package_Nodes query = []"
    by (simp add: query_def)
  from empty_page_ends_inner_loop [where cl = empty_pages and st = st and query = query
      and k = 4 and now = "\<lambda>n. 0" and n = 0, OF a b]
  have "packagesLoop 5 1 empty_pages (\<lambda>n. 0) st =
      (Returned, st\<lparr>requests := requests st @ [vars st]\<rparr>)"
    by (simp add: query_def eval_nat_numeral)
  then show ?thesis
    by (simp add: st_def)
qed

section \<open>The published value\<close>




section \<open>Configuration\<close>

lemma Split_acc_no_sep: "sep \<notin> set s \<Longrightarrow> Split_acc sep cur s = [rev cur @ s]"
  by (induction s arbitrary: cur) auto

lemma Split_no_sep: "sep \<notin> set s \<Longrightarrow> Split s sep = [s]"
  by (simp add: Split_def Split_acc_no_sep)

text \<open>
  Claim C9. With an empty token the run ends at once by \<open>githubactions.Fatalf\<close>, and so it
  does with a token and an empty repository identifier. With a token and a repository
  identifier that is not empty and has no \<open>/\<close>, the split has one element, the identifier
  itself, and the index 1 is out of its range: the run panics. In the three cases no query
  has been sent, nothing has been logged and nothing is published. (The token is read first:
  the identifier is only split when the token is there.)
\<close>

theorem configuration_errors:
  "(Getenv w ''ROBOT_TOKEN'' = [] \<longrightarrow>
      main w fuel = (Fatal ''Environment variable ROBOT_TOKEN is empty.'',
        \<lparr>logged = [], queried = [], published = []\<rparr>)) \<and>
   (Getenv w ''ROBOT_TOKEN'' \<noteq> [] \<and> Getenv w ''GITHUB_REPOSITORY'' = [] \<longrightarrow>
      main w fuel = (Fatal ''Environment variable GITHUB_REPOSITORY is empty.'',
        \<lparr>logged = [], queried = [], published = []\<rparr>)) \<and>
   (Getenv w ''ROBOT_TOKEN'' \<noteq> [] \<and> Getenv w ''GITHUB_REPOSITORY'' \<noteq> [] \<and>
    CHR ''/'' \<notin> set (Getenv w ''GITHUB_REPOSITORY'') \<longrightarrow>
      Split (Getenv w ''GITHUB_REPOSITORY'') CHR ''/'' = [Getenv w ''GITHUB_REPOSITORY''] \<and>
      main w fuel = (Panicked ''index out of range [1] with length 1'',
        \<lparr>logged = [], queried = [], published = []\<rparr>))"
  by (simp add: main_def Let_def no_effects_def Split_no_sep)

theorem configuration_errors_witness:
  "main (test_world ''percona'' (paged_server 1 two_packages) 0) 5 =
     (Panicked ''index out of range [1] with length 1'',
      \<lparr>logged = [], queried = [], published = []\<rparr>) \<and>
   main (test_world [] (paged_server 1 two_packages) 0) 5 =
     (Fatal ''Environment variable GITHUB_REPOSITORY is empty.'',
      \<lparr>logged = [], queried = [], published = []\<rparr>) \<and>
   main \<lparr>Getenv = (\<lambda>name. []), github = (\<lambda>token. paged_server 1 two_packages), Now = (\<lambda>n. 0)\<rparr> 5 =
     (Fatal ''Environment variable ROBOT_TOKEN is empty.'',
      \<lparr>logged = [], queried = [], published = []\<rparr>)"
proof -
  note c = configuration_errors [of "test_world ''percona'' (paged_server 1 two_packages) 0" 5]
    configuration_errors [of "test_world [] (paged_server 1 two_packages) 0" 5]
    configuration_errors [of "\<lparr>Getenv = (\<lambda>name. []), github = (\<lambda>token. paged_server 1 two_packages),
      Now = (\<lambda>n. 0)\<rparr>" 5]
  from c show ?thesis
    by (simp add: test_world_def)
qed

section \<open>The cursors from query to query\<close>

text \<open>
  Claim C10. In every run, the first query has both cursors \<open>nil\<close>, and each later query
  differs from the one before it in one of two ways. Either the page of versions just
  received announces a next page, and the versions cursor becomes its end cursor; or it does
  not (or there was no package), the page of packages announces a next page, and the
  packages cursor becomes its end cursor while the versions cursor stays as it was. So the
  first query for the next package carries the versions cursor of the last query for the
  package before: nothing sets it back to \<open>nil\<close>.
\<close>

theorem versions_cursor_never_reset:
  assumes "main w fuel = (out, e)"
  shows "(queried e \<noteq> [] \<longrightarrow>
            packagesCursor (queried e ! 0) = None \<and> versionsCursor (queried e ! 0) = None) \<and>
         (\<forall>i. Suc i < length (queried e) \<longrightarrow>
            (\<exists>query. getClient w (Getenv w ''ROBOT_TOKEN'') i (queried e ! i) = Inr query \<and>
               ((\<exists>pkg rest. package_Nodes query = pkg # rest \<and>
                   HasNextPage (version_PageInfo (Versions pkg)) \<and>
                   queried e ! Suc i = (queried e ! i)\<lparr>versionsCursor :=
                     Some (EndCursor (version_PageInfo (Versions pkg)))\<rparr>) \<or>
                ((\<forall>pkg rest. package_Nodes query = pkg # rest \<longrightarrow>
                    \<not> HasNextPage (version_PageInfo (Versions pkg))) \<and>
                 HasNextPage (package_PageInfo query) \<and>
                 queried e ! Suc i = (queried e ! i)\<lparr>packagesCursor :=
                   Some (EndCursor (package_PageInfo query))\<rparr> \<and>
                 versionsCursor (queried e ! Suc i) = versionsCursor (queried e ! i)))))"
  using assms
proof (cases rule: main_cases)
  case startup
  then show ?thesis by (simp add: no_effects_def)
next
  case (run owner name rest st)
  define cl where "cl = getClient w (Getenv w ''ROBOT_TOKEN'')"
  define st0 where "st0 = \<lparr>vars = \<lparr>repositoryOwner = owner, repositoryName = name,
      packagesCursor = None, versionsCursor = None\<rparr>,
    versions = [], log = [], requests = [], ticks = 0\<rparr>"
  from run(3) have loop: "packagesLoop fuel fuel cl (Now w) st0 = (out, st)"
    by (simp add: cl_def st0_def)
  from packagesLoop_continues [OF loop] run(4)
  have first: "queried e \<noteq> [] \<longrightarrow> hd (queried e) = vars st0"
    by (auto simp: continues_def st0_def)
  then have a: "queried e \<noteq> [] \<longrightarrow>
      packagesCursor (queried e ! 0) = None \<and> versionsCursor (queried e ! 0) = None"
    by (auto simp: hd_conv_nth st0_def)
  have "chain cl (requests st0 @ [vars st0])"
    by (simp add: st0_def chain_one)
  from packagesLoop_chain [OF this loop] run(4) have c: "chain cl (queried e)" by simp
  have b: "\<exists>query. cl i (queried e ! i) = Inr query \<and>
      ((\<exists>pkg rest. package_Nodes query = pkg # rest \<and>
          HasNextPage (version_PageInfo (Versions pkg)) \<and>
          queried e ! Suc i = (queried e ! i)\<lparr>versionsCursor :=
            Some (EndCursor (version_PageInfo (Versions pkg)))\<rparr>) \<or>
       ((\<forall>pkg rest. package_Nodes query = pkg # rest \<longrightarrow>
           \<not> HasNextPage (version_PageInfo (Versions pkg))) \<and>
        HasNextPage (package_PageInfo query) \<and>
        queried e ! Suc i = (queried e ! i)\<lparr>packagesCursor :=
          Some (EndCursor (package_PageInfo query))\<rparr> \<and>
        versionsCursor (queried e ! Suc i) = versionsCursor (queried e ! i)))"
    if i: "Suc i < length (queried e)" for i
  proof -
    from c i obtain query where q: "cl i (queried e ! i) = Inr query"
      "next_request query (queried e ! i) = Some (queried e ! Suc i)"
      by (auto simp: chain_def)
    show ?thesis
    proof (cases "package_Nodes query")
      case Nil
      with q(2) have "HasNextPage (package_PageInfo query)"
        "queried e ! Suc i = (queried e ! i)\<lparr>packagesCursor :=
          Some (EndCursor (package_PageInfo query))\<rparr>"
        by (auto simp: next_request_def split: if_splits)
      with q(1) Nil show ?thesis by simp
    next
      case (Cons pkg rest)
      show ?thesis
      proof (cases "HasNextPage (version_PageInfo (Versions pkg))")
        case True
        with q(2) Cons have "queried e ! Suc i = (queried e ! i)\<lparr>versionsCursor :=
            Some (EndCursor (version_PageInfo (Versions pkg)))\<rparr>"
          by (simp add: next_request_def)
        with q(1) Cons True show ?thesis by simp
      next
        case False
        with q(2) Cons have "HasNextPage (package_PageInfo query)"
          "queried e ! Suc i = (queried e ! i)\<lparr>packagesCursor :=
            Some (EndCursor (package_PageInfo query))\<rparr>"
          by (auto simp: next_request_def split: if_splits)
        with q(1) Cons False show ?thesis by simp
      qed
    qed
  qed
  from a b show ?thesis
    unfolding cl_def by blast
qed

theorem versions_cursor_never_reset_witness:
  "queried (snd (main (paged_world 1 two_packages (100 * Day)) 5)) =
     [\<lparr>repositoryOwner = ''percona'', repositoryName = ''app'',
        packagesCursor = None, versionsCursor = None\<rparr>,
      \<lparr>repositoryOwner = ''percona'', repositoryName = ''app'',
        packagesCursor = None, versionsCursor = Some ''I''\<rparr>,
      \<lparr>repositoryOwner = ''percona'', repositoryName = ''app'',
        packagesCursor = Some ''I'', versionsCursor = Some ''I''\<rparr>] \<and>
   versionsCursor (queried (snd (main (paged_world 1 two_packages (100 * Day)) 5)) ! 2) =
     versionsCursor (queried (snd (main (paged_world 1 two_packages (100 * Day)) 5)) ! 1) \<and>
   packagesCursor (queried (snd (main (paged_world 1 two_packages (100 * Day)) 5)) ! 2) \<noteq>
     packagesCursor (queried (snd (main (paged_world 1 two_packages (100 * Day)) 5)) ! 1)"
proof -
  define w where "w = paged_world 1 two_packages (100 * Day)"
  define e where "e = snd (main w 5)"
  have m: "main w 5 = (fst (main w 5), e)" by (simp add: e_def)
  have q: "queried e =
     [\<lparr>repositoryOwner = ''percona'', repositoryName = ''app'',
        packagesCursor = None, versionsCursor = None\<rparr>,
      \<lparr>repositoryOwner = ''percona'', repositoryName = ''app'',
        packagesCursor = None, versionsCursor = Some ''I''\<rparr>,
      \<lparr>repositoryOwner = ''percona'', repositoryName = ''app'',
        packagesCursor = Some ''I'', versionsCursor = Some ''I''\<rparr>]"
    unfolding e_def w_def by code_simp
  have a1: "getClient w (Getenv w ''ROBOT_TOKEN'') 1 (queried e ! 1) =
      Inr \<lparr>package_Nodes = [\<lparr>package_ID = StringID ''PA'', Name = ''a'',
               Versions = \<lparr>version_Nodes = [version_node ''A2'' ''pr-2'' [0]],
                 version_PageInfo = \<lparr>EndCursor = ''II'', HasNextPage = False\<rparr>\<rparr>\<rparr>],
             package_PageInfo = \<lparr>EndCursor = ''I'', HasNextPage = True\<rparr>\<rparr>"
    unfolding q w_def by code_simp
  have len: "Suc 1 < length (queried e)" by (simp add: q)
  from versions_cursor_never_reset [OF m, THEN conjunct2, THEN spec, of 1, THEN mp, OF len]
  have "\<exists>query. getClient w (Getenv w ''ROBOT_TOKEN'') 1 (queried e ! 1) = Inr query \<and>
      ((\<exists>pkg rest. package_Nodes query = pkg # rest \<and>
          HasNextPage (version_PageInfo (Versions pkg)) \<and>
          queried e ! Suc 1 = (queried e ! 1)\<lparr>versionsCursor :=
            Some (EndCursor (version_PageInfo (Versions pkg)))\<rparr>) \<or>
       ((\<forall>pkg rest. package_Nodes query = pkg # rest \<longrightarrow>
           \<not> HasNextPage (version_PageInfo (Versions pkg))) \<and>
        HasNextPage (package_PageInfo query) \<and>
        queried e ! Suc 1 = (queried e ! 1)\<lparr>packagesCursor :=
          Some (EndCursor (package_PageInfo query))\<rparr> \<and>
        versionsCursor (queried e ! Suc 1) = versionsCursor (queried e ! 1)))" .
  with a1 have "versionsCursor (queried e ! Suc 1) = versionsCursor (queried e ! 1)"
    by auto
  then have "versionsCursor (queried e ! 2) = versionsCursor (queried e ! 1)"
    by (simp add: numeral_2_eq_2)
  with q show ?thesis
    by (simp add: e_def w_def)
qed

end
